theory Spec2Isabelle
  imports Complex_Main "HOL-Library.AList"
begin

section \<open>Conventions of the embedding\<close>

text \<open>
  The timeline-fusion core of the service lives in
  \<^verbatim>\<open>app/services/alignment_service.py\<close> and \<^verbatim>\<open>app/services/metadata_service.py\<close>.
  Every function of the two service sections is a translation of one function (or one loop)
  of these files and keeps its name, without the leading underscore; a loop or a part of a
  function has a name of its own, and the text before it says which lines it stands for.

  \<^item> Python floats are modelled as exact reals: sums, differences, products and quotients
    are computed without rounding error. The one place where a float operation raises,
    \<^verbatim>\<open>math.exp\<close> on an argument whose exponential exceeds the largest double, is kept
    as an error value.
  \<^item> The recognition result arrives untyped. Its list elements and the values that the
    extraction converts are modelled by what the conversion does with them, so that every
    exception of the extraction is an error value of the model.
  \<^item> Python dictionaries with a fixed set of keys are records; a key that may be absent is
    an \<open>option\<close> field. A dictionary that is filled in a loop and later iterated is an
    association list in insertion order.
  \<^item> Python strings are \<open>string\<close>; the characters that \<^verbatim>\<open>str.split()\<close> and
    \<^verbatim>\<open>str.strip()\<close> treat as whitespace are those of \<open>py_isspace\<close>.
  \<^item> In-place updates of a dictionary held in a list are written as the rebuilt list.
\<close>

section \<open>Python library functions used by the services\<close>

definition py_isspace :: "char \<Rightarrow> bool" where
  "py_isspace c = (of_char c \<in> {9, 10, 11, 12, 13, 28, 29, 30, 31, 32, 133, 160 :: nat})"

text \<open>\<^verbatim>\<open>s.split()\<close>: the maximal runs of non-whitespace characters, in order.\<close>

function py_split :: "string \<Rightarrow> string list" where
  "py_split [] = []"
| "py_split (c # cs) =
     (if py_isspace c then py_split cs
      else (c # takeWhile (\<lambda>x. \<not> py_isspace x) cs)
             # py_split (dropWhile (\<lambda>x. \<not> py_isspace x) cs))"
  by pat_completeness auto
termination
  by (relation "measure length") (auto simp: le_imp_less_Suc length_dropWhile_le)

text \<open>\<^verbatim>\<open>s.strip()\<close>: leading and trailing whitespace removed.\<close>

definition py_strip :: "string \<Rightarrow> string" where
  "py_strip s = rev (dropWhile py_isspace (rev (dropWhile py_isspace s)))"

text \<open>\<^verbatim>\<open>" ".join(ws)\<close>.\<close>

fun join_space :: "string list \<Rightarrow> string" where
  "join_space [] = []"
| "join_space [w] = w"
| "join_space (w # v # ws) = w @ '' '' @ join_space (v # ws)"

text \<open>
  \<^verbatim>\<open>round(x, 3)\<close>: the nearest multiple of one thousandth, a tie going to the even
  multiple.
\<close>

definition round3 :: "real \<Rightarrow> real" where
  "round3 x =
     (let y = x * 1000; f = \<lfloor>y\<rfloor>; r = y - of_int f
      in (if r < 1 / 2 then of_int f
          else if 1 / 2 < r then of_int (f + 1)
          else if even f then of_int f else of_int (f + 1)) / 1000)"

text \<open>The exceptions that the two services can raise.\<close>

datatype error = OverflowError | TypeError | ValueError | AttributeError

text \<open>
  \<^verbatim>\<open>math.exp(x)\<close> raises \<^verbatim>\<open>OverflowError\<close> when the exponential is not a finite double.
  The largest double whose exponential is finite is \<open>6243314768165359 / 2^43\<close>, about
  \<open>709.7827\<close>.
\<close>

definition exp_max_arg :: real where
  "exp_max_arg = 6243314768165359 / 8796093022208"

definition math_exp :: "real \<Rightarrow> error + real" where
  "math_exp x = (if exp_max_arg < x then Inl OverflowError else Inr (exp x))"

text \<open>
  A value that the code hands to \<^verbatim>\<open>float()\<close>, by what \<^verbatim>\<open>float()\<close> does with it: a number
  (an int, a float, a bool or a numeric string) converts to a float; an int beyond the
  range of the doubles raises \<^verbatim>\<open>OverflowError\<close>; a string that is no number raises
  \<^verbatim>\<open>ValueError\<close>; any other object, such as \<^verbatim>\<open>None\<close>, a list or a dictionary, raises
  \<^verbatim>\<open>TypeError\<close>.
\<close>

datatype float_arg = Number real | HugeInt | NonNumericString | NotANumber

definition py_float :: "float_arg \<Rightarrow> error + real" where
  "py_float v =
     (case v of
        Number x \<Rightarrow> Inr x
      | HugeInt \<Rightarrow> Inl OverflowError
      | NonNumericString \<Rightarrow> Inl ValueError
      | NotANumber \<Rightarrow> Inl TypeError)"

section \<open>Data model\<close>

text \<open>
  A value under the key \<^verbatim>\<open>"text"\<close>, by what \<^verbatim>\<open>(s.get("text") or "").strip()\<close> does
  with it: a string is stripped; a falsy value that is no string (\<^verbatim>\<open>None\<close>, \<^verbatim>\<open>0\<close>,
  an empty list) is replaced by the empty string; a truthy value that is no string has no
  \<^verbatim>\<open>strip\<close> and raises \<^verbatim>\<open>AttributeError\<close>.
\<close>

datatype text_arg = Str string | Falsy | TruthyNonString

text \<open>
  A dictionary in the list of the recognition engine, as it arrives: every key may be
  missing (\<open>None\<close>), and the values under \<^verbatim>\<open>"start"\<close>, \<^verbatim>\<open>"end"\<close> and \<^verbatim>\<open>"text"\<close>
  may be of any type. The two metadata values are only stored by the extraction; they are
  numbers when present.
\<close>

record whisper_segment =
  ws_start :: "float_arg option"
  ws_end :: "float_arg option"
  ws_text :: "text_arg option"
  ws_avg_logprob :: "real option"
  ws_no_speech_prob :: "real option"

text \<open>
  An element of that list, by what the key test
  \<^verbatim>\<open>"start" not in s or "end" not in s\<close> and the subscription \<^verbatim>\<open>s["start"]\<close> do with
  it: a dictionary; an object that is no dictionary and for which the key test holds (a
  string or a list without the two keys), which is skipped like a dictionary without them;
  or any other object (\<^verbatim>\<open>None\<close>, a number, a string that contains both words), for which
  the key test or the subscription raises \<^verbatim>\<open>TypeError\<close>.
\<close>

datatype asr_item = ItemDict whisper_segment | ItemKeyless | ItemUnindexable

text \<open>
  The shapes of \<^verbatim>\<open>asr_result\<close> that \<^verbatim>\<open>_extract_asr_segments\<close> tells apart: a dictionary
  (with the list under \<^verbatim>\<open>"segments"\<close>, if that key holds a list, and the list under
  \<^verbatim>\<open>"meta"\<close>/\<^verbatim>\<open>"segments"\<close>, if \<^verbatim>\<open>"meta"\<close> is a dictionary whose \<^verbatim>\<open>"segments"\<close> is a list),
  a list, or anything else.
\<close>

datatype asr_result =
    AsrDict "asr_item list option" "asr_item list option"
  | AsrList "asr_item list"
  | AsrOther

text \<open>A normalised recognition segment (TimedTextSegment).\<close>

record asr_segment =
  seg_start :: real
  seg_end :: real
  seg_text :: string
  avg_logprob :: real
  no_speech_prob :: real

text \<open>A word interval (WordInterval).\<close>

record word_segment =
  w_start :: real
  w_end :: real
  word :: string

text \<open>A diarization interval (DiarizationInterval).\<close>

record diar_segment =
  d_start :: real
  d_end :: real
  d_speaker :: string

text \<open>
  A speaker segment before confidence is attached (the raw AlignedSpeakerSegment), and with
  confidence and the two gender placeholders (the AlignedSpeakerSegment of the output).
\<close>

record raw_segment =
  a_start :: real
  a_end :: real
  a_speaker :: string
  a_text :: string

record speaker_segment = raw_segment +
  confidence :: real
  gender :: "string option"
  gender_confidence :: "real option"

text \<open>A conversation turn (ConversationTurn).\<close>

record turn =
  t_start :: real
  t_end :: real
  t_speaker :: string
  t_speaker_raw :: string
  t_text :: string

section \<open>The alignment service\<close>

subsection \<open>Helpers\<close>

text \<open>\<^verbatim>\<open>_confidence_from_whisper\<close>: the logistic of the log-probability, discounted by the
  no-speech probability and clamped to \<open>[0, 1]\<close>.\<close>

definition confidence_from_whisper :: "asr_segment \<Rightarrow> error + real" where
  "confidence_from_whisper seg =
     (case math_exp (- avg_logprob seg) of
        Inl e \<Rightarrow> Inl e
      | Inr ex \<Rightarrow>
          (let conf = 1 / (1 + ex);
               conf = conf * (1 - no_speech_prob seg)
           in Inr (max 0 (min 1 conf))))"

text \<open>\<^verbatim>\<open>_overlap\<close>.\<close>

definition overlap :: "real \<Rightarrow> real \<Rightarrow> real \<Rightarrow> real \<Rightarrow> real" where
  "overlap a_st a_en b_st b_en = max 0 (min a_en b_en - max a_st b_st)"

text \<open>
  \<^verbatim>\<open>_best_diar_for_asr\<close>: the loop carries \<^verbatim>\<open>best\<close> and \<^verbatim>\<open>best_overlap\<close>. The
  service calls it with the span of a merged speaker segment and the list of normalised
  recognition segments.
\<close>

fun best_loop :: "real \<Rightarrow> real \<Rightarrow> asr_segment option \<Rightarrow> real \<Rightarrow> asr_segment list
    \<Rightarrow> asr_segment option" where
  "best_loop s_start s_end best best_overlap [] = best"
| "best_loop s_start s_end best best_overlap (d # diar) =
     (let ov = overlap s_start s_end (seg_start d) (seg_end d)
      in if best_overlap < ov then best_loop s_start s_end (Some d) ov diar
         else best_loop s_start s_end best best_overlap diar)"

definition best_diar_for_asr :: "real \<Rightarrow> real \<Rightarrow> asr_segment list \<Rightarrow> asr_segment option" where
  "best_diar_for_asr s_start s_end diar = best_loop s_start s_end None 0 diar"

subsection \<open>1. Extract ASR segments\<close>

text \<open>\<^verbatim>\<open>(s.get("text") or "").strip()\<close>.\<close>

definition norm_text :: "text_arg option \<Rightarrow> error + string" where
  "norm_text v =
     (case v of
        None \<Rightarrow> Inr []
      | Some Falsy \<Rightarrow> Inr []
      | Some (Str t) \<Rightarrow> Inr (py_strip t)
      | Some TruthyNonString \<Rightarrow> Inl AttributeError)"

text \<open>
  The normalising loop of \<^verbatim>\<open>_extract_asr_segments\<close>: a record without start or end is
  dropped; of the others the start, the end and the text are converted in this order, the
  first conversion that raises ends the loop, and the two metadata fields get their
  defaults.
\<close>

fun norm_loop :: "asr_item list \<Rightarrow> error + asr_segment list" where
  "norm_loop [] = Inr []"
| "norm_loop (ItemUnindexable # segs) = Inl TypeError"
| "norm_loop (ItemKeyless # segs) = norm_loop segs"
| "norm_loop (ItemDict s # segs) =
     (case (ws_start s, ws_end s) of
        (Some st, Some en) \<Rightarrow>
          (case py_float st of
             Inl e \<Rightarrow> Inl e
           | Inr st' \<Rightarrow>
               (case py_float en of
                  Inl e \<Rightarrow> Inl e
                | Inr en' \<Rightarrow>
                    (case norm_text (ws_text s) of
                       Inl e \<Rightarrow> Inl e
                     | Inr t \<Rightarrow>
                         (case norm_loop segs of
                            Inl e \<Rightarrow> Inl e
                          | Inr normalized \<Rightarrow>
                              Inr (\<lparr>seg_start = st', seg_end = en', seg_text = t,
                                    avg_logprob =
                                      (case ws_avg_logprob s of None \<Rightarrow> - 1 | Some v \<Rightarrow> v),
                                    no_speech_prob =
                                      (case ws_no_speech_prob s of None \<Rightarrow> 0 | Some v \<Rightarrow> v)\<rparr>
                                   # normalized)))))
      | _ \<Rightarrow> norm_loop segs)"

text \<open>The list that \<^verbatim>\<open>_extract_asr_segments\<close> takes from \<^verbatim>\<open>asr_result\<close>: the value of
  \<^verbatim>\<open>segs\<close> before the loop, \<open>None\<close> when no shape matches.\<close>

definition select_segments :: "asr_result \<Rightarrow> asr_item list option" where
  "select_segments asr_res =
     (case asr_res of
        AsrDict (Some l) m \<Rightarrow> Some l
      | AsrDict None (Some l) \<Rightarrow> Some l
      | AsrDict None None \<Rightarrow> None
      | AsrList l \<Rightarrow> Some l
      | AsrOther \<Rightarrow> None)"

definition extract_asr_segments :: "asr_result \<Rightarrow> error + asr_segment list" where
  "extract_asr_segments asr_res =
     (let segs = select_segments asr_res
      in case segs of
           None \<Rightarrow> Inr []
         | Some l \<Rightarrow> if l = [] then Inr [] else norm_loop l)"

subsection \<open>2. Word slicing\<close>

text \<open>The inner loop of \<^verbatim>\<open>_to_word_segments\<close>, over \<^verbatim>\<open>enumerate(words)\<close>.\<close>

definition word_slices :: "real \<Rightarrow> real \<Rightarrow> real \<Rightarrow> string list \<Rightarrow> word_segment list" where
  "word_slices start en w_dur words =
     map (\<lambda>(i, w).
            \<lparr>w_start = start + real i * w_dur,
             w_end = (if i = length words - 1 then en else start + real (i + 1) * w_dur),
             word = w\<rparr>)
         (enumerate 0 words)"

fun to_word_segments :: "asr_segment list \<Rightarrow> word_segment list" where
  "to_word_segments [] = []"
| "to_word_segments (seg # asr_segments) =
     (if seg_text seg = [] then to_word_segments asr_segments
      else
        (let start = seg_start seg;
             en = seg_end seg;
             duration = max (en - start) (1 / 1000000);
             words = py_split (seg_text seg)
         in if words = [] then to_word_segments asr_segments
            else word_slices start en (duration / real (length words)) words
                   @ to_word_segments asr_segments))"

subsection \<open>3. Map words to speakers\<close>

text \<open>The test of the list comprehension in \<^verbatim>\<open>_align_words_to_diarization\<close>.\<close>

definition word_in :: "diar_segment \<Rightarrow> word_segment \<Rightarrow> bool" where
  "word_in d w = (\<not> (w_end w \<le> d_start d \<or> w_start w \<ge> d_end d))"

fun align_loop :: "word_segment list \<Rightarrow> diar_segment list \<Rightarrow> raw_segment list" where
  "align_loop word_segments [] = []"
| "align_loop word_segments (d # diarization) =
     (let words = filter (word_in d) word_segments
      in if words = [] then align_loop word_segments diarization
         else \<lparr>a_start = round3 (d_start d), a_end = round3 (d_end d),
               a_speaker = d_speaker d,
               a_text = py_strip (join_space (map word words))\<rparr>
              # align_loop word_segments diarization)"

definition align_words_to_diarization ::
    "word_segment list \<Rightarrow> diar_segment list \<Rightarrow> raw_segment list" where
  "align_words_to_diarization word_segments diarization =
     (if word_segments = [] \<or> diarization = [] then []
      else align_loop (sort_key w_start word_segments) (sort_key d_start diarization))"

subsection \<open>4. Merge blocks\<close>

text \<open>
  The loop of \<^verbatim>\<open>_merge_blocks\<close>. \<^verbatim>\<open>merged\<close> is never empty inside the loop, and
  \<^verbatim>\<open>last\<close> is its final entry; the two assignments to \<^verbatim>\<open>last\<close> replace that entry.
\<close>

fun merge_loop :: "real \<Rightarrow> raw_segment list \<Rightarrow> raw_segment list \<Rightarrow> raw_segment list" where
  "merge_loop max_gap merged [] = merged"
| "merge_loop max_gap merged (seg # segs) =
     (let lst = last merged;
          gap = a_start seg - a_end lst
      in if a_speaker seg = a_speaker lst \<and> 0 \<le> gap \<and> gap \<le> max_gap
         then merge_loop max_gap
                (butlast merged
                   @ [lst\<lparr>a_end := a_end seg,
                          a_text := py_strip (a_text lst @ '' '' @ a_text seg)\<rparr>])
                segs
         else merge_loop max_gap (merged @ [seg]) segs)"

definition merge_blocks_gap :: "raw_segment list \<Rightarrow> real \<Rightarrow> raw_segment list" where
  "merge_blocks_gap segments max_gap =
     (if segments = [] then []
      else (let segs = sort_key a_start segments
            in merge_loop max_gap [hd segs] (tl segs)))"

text \<open>\<^verbatim>\<open>_merge_blocks\<close> with the default \<^verbatim>\<open>max_gap = 0.75\<close>, as \<^verbatim>\<open>align\<close> calls it.\<close>

definition merge_blocks :: "raw_segment list \<Rightarrow> raw_segment list" where
  "merge_blocks segments = merge_blocks_gap segments (3 / 4)"

subsection \<open>5. Public API: align\<close>

text \<open>
  The loop of \<^verbatim>\<open>align\<close> that attaches the confidence and the gender placeholders to
  every merged segment; it stops at the first segment whose confidence raises.
\<close>

fun attach_loop :: "asr_segment list \<Rightarrow> raw_segment list \<Rightarrow> error + speaker_segment list" where
  "attach_loop asr [] = Inr []"
| "attach_loop asr (seg # merged) =
     (case (case best_diar_for_asr (a_start seg) (a_end seg) asr of
              Some best \<Rightarrow> confidence_from_whisper best
            | None \<Rightarrow> Inr (1 / 2)) of
        Inl e \<Rightarrow> Inl e
      | Inr c \<Rightarrow>
          (case attach_loop asr merged of
             Inl e \<Rightarrow> Inl e
           | Inr out \<Rightarrow>
               Inr (\<lparr>a_start = a_start seg, a_end = a_end seg, a_speaker = a_speaker seg,
                     a_text = a_text seg, confidence = c, gender = None,
                     gender_confidence = None\<rparr> # out)))"

text \<open>
  \<^verbatim>\<open>EnhancedAligner.align\<close>; the result is the list under \<^verbatim>\<open>"speaker_segments"\<close>. A
  \<^verbatim>\<open>diarization_result\<close> of \<^verbatim>\<open>None\<close> is the empty list.
\<close>

definition align :: "asr_result \<Rightarrow> diar_segment list \<Rightarrow> error + speaker_segment list" where
  "align asr_res diarization_result =
     (let diar = diarization_result
      in case extract_asr_segments asr_res of
           Inl e \<Rightarrow> Inl e
         | Inr asr \<Rightarrow>
             if asr = [] \<or> diar = [] then Inr []
             else (let words = to_word_segments asr;
                       raw = align_words_to_diarization words diar;
                       merged = merge_blocks raw
                   in attach_loop asr merged))"

subsection \<open>Conversation turns\<close>

text \<open>The loop of \<^verbatim>\<open>build_conversation\<close> that fills \<^verbatim>\<open>time_map\<close>.\<close>

fun time_map_loop :: "(string \<times> real) list \<Rightarrow> speaker_segment list \<Rightarrow> (string \<times> real) list" where
  "time_map_loop time_map [] = time_map"
| "time_map_loop time_map (seg # segments) =
     (let dur = a_end seg - a_start seg
      in time_map_loop
           (AList.update (a_speaker seg)
              ((case map_of time_map (a_speaker seg) of None \<Rightarrow> 0 | Some t \<Rightarrow> t) + dur)
              time_map)
           segments)"

text \<open>\<^verbatim>\<open>sorted(time_map.items(), key=lambda x: x[1], reverse=True)\<close>: descending and
  stable.\<close>

definition speaker_order_of :: "(string \<times> real) list \<Rightarrow> (string \<times> real) list" where
  "speaker_order_of time_map = sort_key (\<lambda>x. - snd x) time_map"

definition roles_of :: "(string \<times> real) list \<Rightarrow> (string \<rightharpoonup> string)" where
  "roles_of speaker_order =
     (if 2 \<le> length speaker_order
      then (let customer = fst (speaker_order ! 0);
                agent = fst (speaker_order ! 1)
            in [customer \<mapsto> ''CUSTOMER'', agent \<mapsto> ''AGENT''])
      else [fst (speaker_order ! 0) \<mapsto> ''CUSTOMER''])"

text \<open>The timeline loop of \<^verbatim>\<open>build_conversation\<close>; it returns \<^verbatim>\<open>conv\<close> and
  \<^verbatim>\<open>current\<close>.\<close>

fun conv_loop :: "(string \<rightharpoonup> string) \<Rightarrow> turn list \<Rightarrow> turn option \<Rightarrow> speaker_segment list
    \<Rightarrow> turn list \<times> turn option" where
  "conv_loop roles conv current [] = (conv, current)"
| "conv_loop roles conv current (seg # segments) =
     (let spk = a_speaker seg;
          role = (case roles spk of None \<Rightarrow> spk | Some r \<Rightarrow> r);
          fresh = \<lparr>t_start = a_start seg, t_end = a_end seg, t_speaker = role,
                   t_speaker_raw = spk, t_text = a_text seg\<rparr>
      in case current of
           None \<Rightarrow> conv_loop roles conv (Some fresh) segments
         | Some cur \<Rightarrow>
             if t_speaker_raw cur = spk \<and> a_start seg - t_end cur \<le> 3 / 4
             then conv_loop roles conv
                    (Some (cur\<lparr>t_end := a_end seg,
                                t_text := t_text cur @ '' '' @ a_text seg\<rparr>))
                    segments
             else conv_loop roles (conv @ [cur]) (Some fresh) segments)"

text \<open>The body of \<^verbatim>\<open>build_conversation\<close> after the call of \<^verbatim>\<open>align\<close>.\<close>

definition conversation_of :: "speaker_segment list \<Rightarrow> turn list" where
  "conversation_of segs =
     (if segs = [] then []
      else (let segments = sort_key a_start segs;
                time_map = time_map_loop [] segments;
                speaker_order = speaker_order_of time_map;
                roles = roles_of speaker_order
            in case conv_loop roles [] None segments of
                 (conv, None) \<Rightarrow> conv
               | (conv, Some current) \<Rightarrow> conv @ [current]))"

definition build_conversation :: "asr_result \<Rightarrow> diar_segment list \<Rightarrow> error + turn list" where
  "build_conversation asr_res diarization_result =
     (case align asr_res diarization_result of
        Inl e \<Rightarrow> Inl e
      | Inr segments \<Rightarrow> Inr (conversation_of segments))"

section \<open>The metadata service\<close>







record conversation_stats =
  total_duration :: real
  total_segments :: nat
  cs_total_words :: nat
  avg_turn_length :: real
  speaker_count :: nat
  conversation_start :: real
  conversation_end :: real

text \<open>\<^verbatim>\<open>MetadataExtractor.compute_conversation_stats\<close>; the empty dictionary is
  \<open>None\<close>.\<close>

definition compute_conversation_stats ::
    "speaker_segment list \<Rightarrow> diar_segment list \<Rightarrow> conversation_stats option" where
  "compute_conversation_stats speaker_segments diarization_segments =
     (if speaker_segments = [] \<or> diarization_segments = [] then None
      else (let start_time = d_start (hd diarization_segments);
                end_time = d_end (last diarization_segments);
                duration = end_time - start_time;
                words = sum_list (map (\<lambda>seg. length (py_split (a_text seg))) speaker_segments)
            in Some \<lparr>total_duration = duration,
                     total_segments = length speaker_segments,
                     cs_total_words = words,
                     avg_turn_length = duration / real (max (length speaker_segments) 1),
                     speaker_count = card (set (map a_speaker speaker_segments)),
                     conversation_start = start_time,
                     conversation_end = end_time\<rparr>))"

section \<open>Auxiliary functions of the verification\<close>

text \<open>
  The functions of this section are not functions of the service. The first group restates
  the loop of \<^verbatim>\<open>_merge_blocks\<close> in a form that suits induction, and the lemmas of the next
  section prove that the restatement computes what the loop computes. The second group
  names the total speaking time of a speaker and the lookup of a role, for the statement
  about \<^verbatim>\<open>build_conversation\<close>. The third group names the recognition results whose
  records are well formed, for the statement about empty inputs.
\<close>

text \<open>The test of the merge branch of \<^verbatim>\<open>_merge_blocks\<close>, for the last kept segment and
  the candidate.\<close>

definition merge_test :: "real \<Rightarrow> raw_segment \<Rightarrow> raw_segment \<Rightarrow> bool" where
  "merge_test max_gap lst seg =
     (a_speaker seg = a_speaker lst \<and> 0 \<le> a_start seg - a_end lst
        \<and> a_start seg - a_end lst \<le> max_gap)"

text \<open>The two assignments of the merge branch: the kept segment after it has absorbed
  the candidate.\<close>

definition absorb :: "raw_segment \<Rightarrow> raw_segment \<Rightarrow> raw_segment" where
  "absorb lst seg =
     lst\<lparr>a_end := a_end seg, a_text := py_strip (a_text lst @ '' '' @ a_text seg)\<rparr>"

text \<open>The loop of \<^verbatim>\<open>_merge_blocks\<close> seen from its last kept segment: the kept segments
  before it are final.\<close>

fun merge_from :: "real \<Rightarrow> raw_segment \<Rightarrow> raw_segment list \<Rightarrow> raw_segment list" where
  "merge_from max_gap cur [] = [cur]"
| "merge_from max_gap cur (seg # segs) =
     (if merge_test max_gap cur seg then merge_from max_gap (absorb cur seg) segs
      else cur # merge_from max_gap seg segs)"

text \<open>The input segments that each kept segment has absorbed, in order: the group of the
  kept segment.\<close>

fun merge_groups :: "real \<Rightarrow> raw_segment \<Rightarrow> raw_segment list \<Rightarrow> raw_segment list
    \<Rightarrow> raw_segment list list" where
  "merge_groups max_gap cur grp [] = [grp]"
| "merge_groups max_gap cur grp (seg # segs) =
     (if merge_test max_gap cur seg then merge_groups max_gap (absorb cur seg) (grp @ [seg]) segs
      else grp # merge_groups max_gap seg [seg] segs)"

text \<open>A group fused into one segment: the first segment absorbs the others in order.\<close>

definition fuse :: "raw_segment list \<Rightarrow> raw_segment" where
  "fuse grp = foldl absorb (hd grp) (tl grp)"

text \<open>The total speaking time of a speaker in the words of the specification (section
  4.5): the sum of \<open>end - start\<close> over all segments of that speaker.\<close>

definition spec_speaking_time :: "speaker_segment list \<Rightarrow> string \<Rightarrow> real" where
  "spec_speaking_time segs k =
     sum_list (map (\<lambda>s. a_end s - a_start s) (filter (\<lambda>s. a_speaker s = k) segs))"

text \<open>\<^verbatim>\<open>roles.get(spk, spk)\<close>.\<close>

definition role_get :: "(string \<rightharpoonup> string) \<Rightarrow> string \<Rightarrow> string" where
  "role_get roles spk = (case roles spk of None \<Rightarrow> spk | Some r \<Rightarrow> r)"




section \<open>Verification\<close>

subsection \<open>Word slicing\<close>

text \<open>Stripped text that is not empty starts with a word, so it splits into at least one
  word.\<close>

lemma py_split_nonspace_head: "\<not> py_isspace c \<Longrightarrow> py_split (c # cs) \<noteq> []"
  by simp

lemma py_strip_head: "py_strip s \<noteq> [] \<Longrightarrow> \<not> py_isspace (hd (py_strip s))"
proof -
  assume ne: "py_strip s \<noteq> []"
  let ?t = "dropWhile py_isspace s"
  have t_ne: "?t \<noteq> []"
  proof
    assume "?t = []"
    then have "py_strip s = []"
      unfolding py_strip_def by (simp only: rev.simps dropWhile.simps)
    with ne show False by simp
  qed
  then have h: "\<not> py_isspace (hd ?t)" by (rule hd_dropWhile)
  obtain ys where ys: "?t = py_strip s @ ys"
  proof -
    have "rev ?t = takeWhile py_isspace (rev ?t) @ dropWhile py_isspace (rev ?t)" by simp
    then have "?t = rev (dropWhile py_isspace (rev ?t)) @ rev (takeWhile py_isspace (rev ?t))"
      by (metis rev_append rev_rev_ident)
    then show ?thesis using that by (simp add: py_strip_def)
  qed
  then have "hd ?t = hd (py_strip s)" using ne by (metis hd_append2)
  with h show ?thesis by simp
qed

lemma py_split_strip_nonempty: "py_strip s \<noteq> [] \<Longrightarrow> py_split (py_strip s) \<noteq> []"
proof -
  assume ne: "py_strip s \<noteq> []"
  then obtain c cs where e: "py_strip s = c # cs" by (cases "py_strip s") auto
  with py_strip_head[OF ne] have "\<not> py_isspace c" by simp
  then show ?thesis unfolding e by simp
qed

lemma py_strip_Nil [simp]: "py_strip [] = []"
  by (simp add: py_strip_def)

lemma norm_text_strip: "norm_text v = Inr t \<Longrightarrow> \<exists>u. t = py_strip u"
  by (auto simp: norm_text_def split: option.splits text_arg.splits intro: py_strip_Nil[symmetric])

lemma norm_loop_text:
  "norm_loop l = Inr asr \<Longrightarrow> seg \<in> set asr \<Longrightarrow> \<exists>t. seg_text seg = py_strip t"
proof (induction l arbitrary: asr)
  case Nil
  then show ?case by simp
next
  case (Cons a l)
  show ?case
  proof (cases a)
    case ItemUnindexable
    with Cons.prems show ?thesis by simp
  next
    case ItemKeyless
    with Cons.prems have "norm_loop l = Inr asr" by simp
    then show ?thesis using Cons.prems(2) by (rule Cons.IH)
  next
    case (ItemDict s)
    show ?thesis
    proof (cases "\<exists>st en. ws_start s = Some st \<and> ws_end s = Some en")
      case False
      then have "norm_loop (a # l) = norm_loop l"
        unfolding ItemDict by (auto split: option.splits)
      with Cons.prems have "norm_loop l = Inr asr" by simp
      then show ?thesis using Cons.prems(2) by (rule Cons.IH)
    next
      case True
      then obtain st en where k: "ws_start s = Some st" "ws_end s = Some en" by blast
      from Cons.prems(1) k obtain st' en' t rest where
        c: "norm_text (ws_text s) = Inr t" "norm_loop l = Inr rest"
        and a: "asr = \<lparr>seg_start = st', seg_end = en', seg_text = t,
                  avg_logprob = (case ws_avg_logprob s of None \<Rightarrow> - 1 | Some v \<Rightarrow> v),
                  no_speech_prob = (case ws_no_speech_prob s of None \<Rightarrow> 0 | Some v \<Rightarrow> v)\<rparr>
                # rest"
        unfolding ItemDict by (auto split: sum.splits)
      from Cons.prems(2) a consider "seg_text seg = t" | "seg \<in> set rest" by auto
      then show ?thesis
      proof cases
        case 1
        then show ?thesis using norm_text_strip[OF c(1)] by simp
      next
        case 2
        with c(2) show ?thesis by (rule Cons.IH)
      qed
    qed
  qed
qed

lemma extract_text:
  "extract_asr_segments r = Inr asr \<Longrightarrow> seg \<in> set asr \<Longrightarrow> \<exists>t. seg_text seg = py_strip t"
  by (auto simp: extract_asr_segments_def Let_def dest: norm_loop_text
      split: option.splits if_splits)

lemma length_word_slices [simp]: "length (word_slices st en wd words) = length words"
  by (simp add: word_slices_def)

lemma nth_word_slices:
  "i < length words \<Longrightarrow>
   word_slices st en wd words ! i =
     \<lparr>w_start = st + real i * wd,
      w_end = (if i = length words - 1 then en else st + real (i + 1) * wd),
      word = words ! i\<rparr>"
  by (simp add: word_slices_def nth_enumerate_eq)

lemma map_word_slices [simp]: "map word (word_slices st en wd words) = words"
  by (rule nth_equalityI) (simp_all add: nth_word_slices)

lemma to_word_segments_single:
  "py_split (seg_text seg) \<noteq> [] \<Longrightarrow>
   to_word_segments [seg] =
     word_slices (seg_start seg) (seg_end seg)
       (max (seg_end seg - seg_start seg) (1 / 1000000) / real (length (py_split (seg_text seg))))
       (py_split (seg_text seg))"
  by (auto simp: Let_def)

lemma to_word_segments_append:
  "to_word_segments (xs @ ys) = to_word_segments xs @ to_word_segments ys"
  by (induction xs) (simp_all add: Let_def)

lemma last_slice_room:
  fixes d :: real
  assumes n: "0 < n" and room: "real (n - 1) / 1000000 \<le> real n * d"
  shows "real (n - 1) * (max d (1 / 1000000) / real n) \<le> d"
proof (cases "1 / 1000000 \<le> d")
  case True
  then have m: "max d (1 / 1000000) = d" by simp
  have "real (n - 1) * d \<le> real n * d"
    using True by (intro mult_right_mono) auto
  then have "real (n - 1) * d / real n \<le> d"
    using n by (simp add: divide_le_eq mult.commute)
  then show ?thesis by (simp add: m)
next
  case False
  then have m: "max d (1 / 1000000) = 1 / 1000000" by simp
  have "real (n - 1) * (1 / 1000000) / real n \<le> d"
    using n room by (simp add: divide_le_eq mult.commute)
  then show ?thesis by (simp add: m)
qed

lemma chain_covers:
  fixes lo hi :: "nat \<Rightarrow> real"
  assumes n: "0 < n"
    and first: "lo 0 \<le> t" and lst: "t \<le> hi (n - 1)"
    and link: "\<And>i. Suc i < n \<Longrightarrow> hi i = lo (Suc i)"
  shows "\<exists>i<n. lo i \<le> t \<and> t \<le> hi i"
proof -
  define k where "k = (LEAST i. t \<le> hi i)"
  have pk: "t \<le> hi k" unfolding k_def using lst by (rule LeastI)
  have kle: "k \<le> n - 1" unfolding k_def using lst by (rule Least_le)
  have "lo k \<le> t"
  proof (cases k)
    case 0
    then show ?thesis using first by simp
  next
    case (Suc j)
    have "j < k" using Suc by simp
    then have "\<not> t \<le> hi j" unfolding k_def by (rule not_less_Least)
    moreover have "hi j = lo (Suc j)" using link[of j] kle Suc n by simp
    ultimately show ?thesis using Suc by simp
  qed
  with pk kle n show ?thesis by (intro exI[of _ k]) auto
qed

text \<open>
  Claim C1, as amended. Let \<open>seg\<close> be a normalised recognition segment with non-empty
  text and \<open>n\<close> whitespace-separated words, and suppose \<open>(n - 1) / 10^6 \<le> n * (end - start)\<close>:
  this holds whenever \<open>end - start\<close> is at least the \<open>10^-6\<close> of the duration clamp, and
  for a single word whenever \<open>start \<le> end\<close>. Then \<open>to_word_segments\<close> emits for \<open>seg\<close> exactly
  \<open>n\<close> intervals, carrying the words in order; the first starts at the segment's start,
  the last ends at the segment's end, each interval ends where the next one starts, no
  interval is inverted, no two overlap, all lie inside the segment's span and every point of
  the span lies in one of them.
\<close>

theorem word_intervals_partition_segment:
  assumes extracted: "extract_asr_segments asr_res = Inr asr"
    and norm: "seg \<in> set asr"
    and nonempty: "seg_text seg \<noteq> []"
    and n_def: "n = length (py_split (seg_text seg))"
    and ws_def: "ws = to_word_segments [seg]"
    and room: "real (n - 1) / 1000000 \<le> real n * (seg_end seg - seg_start seg)"
  shows "0 < n \<and> length ws = n \<and> map word ws = py_split (seg_text seg)
    \<and> w_start (ws ! 0) = seg_start seg
    \<and> w_end (ws ! (n - 1)) = seg_end seg
    \<and> (\<forall>i. Suc i < n \<longrightarrow> w_end (ws ! i) = w_start (ws ! Suc i))
    \<and> (\<forall>i<n. w_start (ws ! i) \<le> w_end (ws ! i))
    \<and> (\<forall>i j. i < j \<and> j < n \<longrightarrow> w_end (ws ! i) \<le> w_start (ws ! j))
    \<and> (\<forall>i<n. seg_start seg \<le> w_start (ws ! i) \<and> w_end (ws ! i) \<le> seg_end seg)
    \<and> (\<forall>t. seg_start seg \<le> t \<and> t \<le> seg_end seg \<longrightarrow>
          (\<exists>i<n. w_start (ws ! i) \<le> t \<and> t \<le> w_end (ws ! i)))"
proof -
  define st where "st = seg_start seg"
  define en where "en = seg_end seg"
  define words where "words = py_split (seg_text seg)"
  define wd where "wd = max (en - st) (1 / 1000000) / real n"
  obtain t where "seg_text seg = py_strip t" using extract_text[OF extracted norm] by blast
  with nonempty have words_ne: "words \<noteq> []"
    unfolding words_def using py_split_strip_nonempty[of t] by simp
  then have n_pos: "0 < n" using n_def words_def by simp
  have n_len: "n = length words" using n_def words_def by simp
  have ws_eq: "ws = word_slices st en wd words"
    unfolding ws_def st_def en_def wd_def n_def words_def
    using words_ne[unfolded words_def] by (rule to_word_segments_single)
  have len: "length ws = n" by (simp add: ws_eq n_len)
  have wd_nonneg: "0 \<le> wd" unfolding wd_def by (simp add: max_def)
  have room': "real (n - 1) * wd \<le> en - st"
    unfolding wd_def using last_slice_room[OF n_pos] room st_def en_def by simp
  have start_nth: "w_start (ws ! i) = st + real i * wd" if "i < n" for i
    using that by (simp add: ws_eq nth_word_slices n_len)
  have end_last: "w_end (ws ! (n - 1)) = en"
    using n_pos by (simp add: ws_eq nth_word_slices n_len)
  have end_nth: "w_end (ws ! i) = st + real (Suc i) * wd" if "Suc i < n" for i
  proof -
    have "i < length words" and "i \<noteq> length words - 1" using that n_len by auto
    then show ?thesis by (simp add: ws_eq nth_word_slices)
  qed
  have below_last: "st + real i * wd \<le> en" if "i < n" for i
  proof -
    have "real i * wd \<le> real (n - 1) * wd"
      using that wd_nonneg by (intro mult_right_mono) auto
    with room' show ?thesis by simp
  qed
  have link: "w_end (ws ! i) = w_start (ws ! Suc i)" if "Suc i < n" for i
    using that by (simp add: end_nth start_nth)
  have proper: "w_start (ws ! i) \<le> w_end (ws ! i)" if "i < n" for i
  proof (cases "Suc i < n")
    case True
    have "real i * wd \<le> real (Suc i) * wd"
      using wd_nonneg by (intro mult_right_mono) auto
    then show ?thesis using True that by (simp add: end_nth start_nth)
  next
    case False
    then have "i = n - 1" using that by simp
    then have e: "w_end (ws ! i) = en" using end_last by simp
    have s: "w_start (ws ! i) = st + real i * wd" by (rule start_nth[OF that])
    show ?thesis using below_last[OF that] by (simp add: e s)
  qed
  have apart: "w_end (ws ! i) \<le> w_start (ws ! j)" if "i < j" "j < n" for i j
  proof -
    have "Suc i < n" using that by simp
    moreover have "real (Suc i) * wd \<le> real j * wd"
      using that wd_nonneg by (intro mult_right_mono) auto
    ultimately show ?thesis using that by (simp add: end_nth start_nth)
  qed
  have inside: "st \<le> w_start (ws ! i) \<and> w_end (ws ! i) \<le> en" if "i < n" for i
  proof
    have "0 \<le> real i * wd" using wd_nonneg by simp
    then show "st \<le> w_start (ws ! i)" using that by (simp add: start_nth)
  next
    show "w_end (ws ! i) \<le> en"
    proof (cases "Suc i < n")
      case True
      then show ?thesis using below_last[of "Suc i"] by (simp add: end_nth)
    next
      case False
      then have "i = n - 1" using that by simp
      then show ?thesis using end_last by simp
    qed
  qed
  have cover: "\<exists>i<n. w_start (ws ! i) \<le> t \<and> t \<le> w_end (ws ! i)"
    if "st \<le> t" "t \<le> en" for t
  proof (rule chain_covers[OF n_pos])
    show "w_start (ws ! 0) \<le> t" using that n_pos by (simp add: start_nth)
    show "t \<le> w_end (ws ! (n - 1))" using that end_last by simp
    show "\<And>i. Suc i < n \<Longrightarrow> w_end (ws ! i) = w_start (ws ! Suc i)" by (rule link)
  qed
  have first: "w_start (ws ! 0) = st" using n_pos by (simp add: start_nth)
  have texts: "map word ws = py_split (seg_text seg)" by (simp add: ws_eq words_def)
  show ?thesis
    using n_pos len texts first end_last link proper apart inside cover
    unfolding st_def en_def by blast
qed

text \<open>The segment \<open>[0, 1.5]\<close> with the text "hello world": two words, \<open>[0, 0.75]\<close> and
  \<open>[0.75, 1.5]\<close>.\<close>

theorem word_intervals_partition_segment_witness:
  "extract_asr_segments
       (AsrList [ItemDict \<lparr>ws_start = Some (Number 0), ws_end = Some (Number (3 / 2)),
                    ws_text = Some (Str '' hello world''),
                    ws_avg_logprob = None, ws_no_speech_prob = None\<rparr>])
     = Inr [\<lparr>seg_start = 0, seg_end = 3 / 2, seg_text = ''hello world'', avg_logprob = - 1,
             no_speech_prob = 0\<rparr>]
   \<and> length (py_split ''hello world'') = 2
   \<and> to_word_segments
         [\<lparr>seg_start = 0, seg_end = 3 / 2, seg_text = ''hello world'', avg_logprob = - 1,
           no_speech_prob = 0\<rparr>]
       = [\<lparr>w_start = 0, w_end = 3 / 4, word = ''hello''\<rparr>,
          \<lparr>w_start = 3 / 4, w_end = 3 / 2, word = ''world''\<rparr>]
   \<and> w_end (to_word_segments
         [\<lparr>seg_start = 0, seg_end = 3 / 2, seg_text = ''hello world'', avg_logprob = - 1,
           no_speech_prob = 0\<rparr>] ! 0)
     = w_start (to_word_segments
         [\<lparr>seg_start = 0, seg_end = 3 / 2, seg_text = ''hello world'', avg_logprob = - 1,
           no_speech_prob = 0\<rparr>] ! Suc 0)
   \<and> w_end (to_word_segments
         [\<lparr>seg_start = 0, seg_end = 3 / 2, seg_text = ''hello world'', avg_logprob = - 1,
           no_speech_prob = 0\<rparr>] ! (2 - 1)) = 3 / 2"
proof -
  let ?raw = "ItemDict \<lparr>ws_start = Some (Number 0), ws_end = Some (Number (3 / 2)),
                ws_text = Some (Str '' hello world''),
                ws_avg_logprob = None, ws_no_speech_prob = None\<rparr>"
  let ?seg = "\<lparr>seg_start = 0, seg_end = 3 / 2, seg_text = ''hello world'', avg_logprob = - 1,
     no_speech_prob = 0\<rparr>"
  have extracted: "extract_asr_segments (AsrList [?raw]) = Inr [?seg]"
    by (simp add: extract_asr_segments_def select_segments_def py_float_def norm_text_def
        py_strip_def py_isspace_def)
  have norm: "?seg \<in> set [?seg]" by simp
  have nonempty: "seg_text ?seg \<noteq> []" by simp
  have n: "2 = length (py_split (seg_text ?seg))" by (simp add: py_isspace_def)
  have room: "real (2 - 1) / 1000000 \<le> real 2 * (seg_end ?seg - seg_start ?seg)" by simp
  have ws: "to_word_segments [?seg]
       = [\<lparr>w_start = 0, w_end = 3 / 4, word = ''hello''\<rparr>,
          \<lparr>w_start = 3 / 4, w_end = 3 / 2, word = ''world''\<rparr>]"
    by (simp add: py_isspace_def word_slices_def Let_def enumerate_eq_zip)
  note inst = word_intervals_partition_segment [OF extracted norm nonempty n refl room]
  from inst have link: "\<forall>i. Suc i < 2 \<longrightarrow>
      w_end (to_word_segments [?seg] ! i) = w_start (to_word_segments [?seg] ! Suc i)"
    by blast
  from inst have lst: "w_end (to_word_segments [?seg] ! (2 - 1)) = seg_end ?seg"
    by blast
  from link have "w_end (to_word_segments [?seg] ! 0) = w_start (to_word_segments [?seg] ! Suc 0)"
    by simp
  with extracted n ws lst show ?thesis by simp
qed

text \<open>
  Claim C1 as stated fails for a segment shorter than the clamp: the normalised segment
  \<open>[1, 1]\<close> with the text "hello world" has \<open>start \<le> end\<close>, yet its first word ends after the
  segment's end, at \<open>1 + 1/2000000\<close>, and its last word starts there and ends at \<open>1\<close>: the
  last interval is inverted and the intervals do not tile \<open>[1, 1]\<close>.
\<close>

theorem word_intervals_short_segment_counterexample:
  "extract_asr_segments
     (AsrList [ItemDict \<lparr>ws_start = Some (Number 1), ws_end = Some (Number 1),
                  ws_text = Some (Str ''hello world''),
                  ws_avg_logprob = None, ws_no_speech_prob = None\<rparr>])
     = Inr [\<lparr>seg_start = 1, seg_end = 1, seg_text = ''hello world'', avg_logprob = - 1,
              no_speech_prob = 0\<rparr>]
   \<and> to_word_segments
       [\<lparr>seg_start = 1, seg_end = 1, seg_text = ''hello world'', avg_logprob = - 1,
         no_speech_prob = 0\<rparr>]
     = [\<lparr>w_start = 1, w_end = 1 + 1 / 2000000, word = ''hello''\<rparr>,
        \<lparr>w_start = 1 + 1 / 2000000, w_end = 1, word = ''world''\<rparr>]"
  by (simp add: extract_asr_segments_def select_segments_def py_float_def norm_text_def
      py_strip_def py_isspace_def word_slices_def Let_def enumerate_eq_zip)

subsection \<open>Mapping words to speakers\<close>

text \<open>The words that \<open>to_word_segments\<close> emits are non-empty and free of whitespace, so
  stripping their single-space concatenation changes nothing.\<close>

lemma py_split_tokens:
  "w \<in> set (py_split s) \<Longrightarrow> w \<noteq> [] \<and> (\<forall>c\<in>set w. \<not> py_isspace c)"
proof (induction s arbitrary: w rule: py_split.induct)
  case 1
  then show ?case by simp
next
  case (2 c cs)
  show ?case
  proof (cases "py_isspace c")
    case True
    with 2 show ?thesis by simp
  next
    case False
    with "2.prems" have "w = c # takeWhile (\<lambda>x. \<not> py_isspace x) cs
        \<or> w \<in> set (py_split (dropWhile (\<lambda>x. \<not> py_isspace x) cs))"
      by simp
    then show ?thesis
    proof
      assume "w = c # takeWhile (\<lambda>x. \<not> py_isspace x) cs"
      then show ?thesis using False by (auto dest: set_takeWhileD)
    next
      assume "w \<in> set (py_split (dropWhile (\<lambda>x. \<not> py_isspace x) cs))"
      then show ?thesis using "2.IH"(2)[OF False] by blast
    qed
  qed
qed

lemma word_of_slice:
  "w \<in> set (word_slices st en wd words) \<Longrightarrow> word w \<in> set words"
proof -
  assume "w \<in> set (word_slices st en wd words)"
  then have "word w \<in> word ` set (word_slices st en wd words)" by (rule imageI)
  also have "word ` set (word_slices st en wd words) = set (map word (word_slices st en wd words))"
    by (simp only: set_map)
  also have "\<dots> = set words" by (simp only: map_word_slices)
  finally show ?thesis .
qed

lemma to_word_segments_tokens:
  "w \<in> set (to_word_segments asr) \<Longrightarrow> word w \<noteq> [] \<and> (\<forall>c\<in>set (word w). \<not> py_isspace c)"
proof (induction asr)
  case Nil
  then show ?case by simp
next
  case (Cons seg asr)
  from Cons.prems have "word w \<in> set (py_split (seg_text seg)) \<or> w \<in> set (to_word_segments asr)"
    by (auto simp: Let_def split: if_splits dest: word_of_slice)
  then show ?case using Cons.IH py_split_tokens by blast
qed


lemma py_strip_id:
  assumes "s \<noteq> []" and "\<not> py_isspace (hd s)" and "\<not> py_isspace (last s)"
  shows "py_strip s = s"
proof -
  have a: "dropWhile py_isspace s = s"
    using assms(1,2) by (cases s) auto
  have "rev s \<noteq> []" and "\<not> py_isspace (hd (rev s))"
    using assms(1,3) by (simp_all add: hd_rev)
  then have b: "dropWhile py_isspace (rev s) = rev s"
    by (cases "rev s") auto
  show ?thesis by (simp add: py_strip_def a b)
qed

lemma join_space_ends:
  assumes "ws \<noteq> []" and "\<forall>w\<in>set ws. w \<noteq> []"
  shows "join_space ws \<noteq> [] \<and> hd (join_space ws) = hd (hd ws)
    \<and> last (join_space ws) = last (last ws)"
  using assms by (induction ws rule: join_space.induct) auto

lemma py_strip_join_tokens:
  assumes "ws \<noteq> []" and "\<forall>w\<in>set ws. w \<noteq> [] \<and> (\<forall>c\<in>set w. \<not> py_isspace c)"
  shows "py_strip (join_space ws) = join_space ws"
proof (rule py_strip_id)
  have ends: "join_space ws \<noteq> [] \<and> hd (join_space ws) = hd (hd ws)
    \<and> last (join_space ws) = last (last ws)"
    using assms by (intro join_space_ends) auto
  show "join_space ws \<noteq> []" using ends by simp
  have "hd ws \<in> set ws" and "last ws \<in> set ws" using assms(1) by simp_all
  then have "hd (hd ws) \<in> set (hd ws)" "last (last ws) \<in> set (last ws)"
    and "\<forall>c\<in>set (hd ws). \<not> py_isspace c" "\<forall>c\<in>set (last ws). \<not> py_isspace c"
    using assms(2) by auto
  then show "\<not> py_isspace (hd (join_space ws))" "\<not> py_isspace (last (join_space ws))"
    using ends by auto
qed

lemma align_loop_eq:
  "align_loop ws ds =
     map (\<lambda>d. \<lparr>a_start = round3 (d_start d), a_end = round3 (d_end d),
                 a_speaker = d_speaker d,
                 a_text = py_strip (join_space (map word (filter (word_in d) ws)))\<rparr>)
       (filter (\<lambda>d. \<exists>w\<in>set ws. word_in d w) ds)"
  by (induction ds) (auto simp: Let_def filter_empty_conv)

text \<open>
  Claim C2. On the word intervals of \<open>to_word_segments\<close>, the speaker mapper emits one
  segment for exactly those intervals \<open>d\<close> of the diarization sequence sorted by start that
  some word interval \<open>w\<close> overlaps, in the sense \<open>\<not> (w.end \<le> d.start \<or> w.start \<ge> d.end)\<close>, and
  in that order; an interval that no word overlaps is skipped. The emitted segment carries
  the speaker label of \<open>d\<close>, the start and end of \<open>d\<close> rounded to three decimals, and as
  text the single-space concatenation of all overlapping words, taken in the order of the
  words sorted by start.
\<close>

theorem speaker_mapper_segments:
  "align_words_to_diarization (to_word_segments asr) diar =
     map (\<lambda>d. \<lparr>a_start = round3 (d_start d), a_end = round3 (d_end d),
                 a_speaker = d_speaker d,
                 a_text = join_space (map word
                   (filter (\<lambda>w. \<not> (w_end w \<le> d_start d \<or> w_start w \<ge> d_end d))
                      (sort_key w_start (to_word_segments asr))))\<rparr>)
       (filter (\<lambda>d. \<exists>w\<in>set (to_word_segments asr).
                       \<not> (w_end w \<le> d_start d \<or> w_start w \<ge> d_end d))
          (sort_key d_start diar))"
proof -
  let ?ws = "to_word_segments asr"
  let ?sw = "sort_key w_start ?ws"
  have tok: "\<forall>w\<in>set (map word (filter (word_in d) ?sw)).
               w \<noteq> [] \<and> (\<forall>c\<in>set w. \<not> py_isspace c)" for d
    using to_word_segments_tokens[of _ asr] by auto
  have strip: "py_strip (join_space (map word (filter (word_in d) ?sw)))
      = join_space (map word (filter (word_in d) ?sw))"
    if "\<exists>w\<in>set ?sw. word_in d w" for d
  proof (rule py_strip_join_tokens[OF _ tok])
    show "map word (filter (word_in d) ?sw) \<noteq> []"
      using that by (simp add: filter_empty_conv)
  qed
  have loop: "align_loop ?sw (sort_key d_start diar) =
     map (\<lambda>d. \<lparr>a_start = round3 (d_start d), a_end = round3 (d_end d),
                 a_speaker = d_speaker d,
                 a_text = join_space (map word (filter (word_in d) ?sw))\<rparr>)
       (filter (\<lambda>d. \<exists>w\<in>set ?sw. word_in d w) (sort_key d_start diar))"
    unfolding align_loop_eq by (rule map_cong) (auto simp: strip)
  have w_in: "word_in = (\<lambda>d w. \<not> (w_end w \<le> d_start d \<or> w_start w \<ge> d_end d))"
    by (intro ext) (simp add: word_in_def)
  show ?thesis
  proof (cases "?ws = [] \<or> diar = []")
    case True
    then show ?thesis by (auto simp: align_words_to_diarization_def)
  next
    case False
    then have "align_words_to_diarization ?ws diar = align_loop ?sw (sort_key d_start diar)"
      by (simp add: align_words_to_diarization_def)
    then show ?thesis unfolding loop by (simp add: w_in)
  qed
qed

text \<open>The two recognition segments "hello world" on \<open>[0, 1.5]\<close> and "how are you" on
  \<open>[1.6, 3.5]\<close>, with an unsorted diarization of three intervals, of which \<open>[4, 5]\<close> has no
  word: two segments are emitted, in start order.\<close>

theorem speaker_mapper_segments_witness:
  "align_words_to_diarization
     (to_word_segments
        [\<lparr>seg_start = 0, seg_end = 3 / 2, seg_text = ''hello world'', avg_logprob = - 1,
          no_speech_prob = 0\<rparr>,
         \<lparr>seg_start = 8 / 5, seg_end = 7 / 2, seg_text = ''how are you'', avg_logprob = - 1,
          no_speech_prob = 0\<rparr>])
     [\<lparr>d_start = 8 / 5, d_end = 7 / 2, d_speaker = ''SPEAKER_01''\<rparr>,
      \<lparr>d_start = 4, d_end = 5, d_speaker = ''SPEAKER_00''\<rparr>,
      \<lparr>d_start = 0, d_end = 3 / 2, d_speaker = ''SPEAKER_00''\<rparr>]
   = [\<lparr>a_start = 0, a_end = 3 / 2, a_speaker = ''SPEAKER_00'', a_text = ''hello world''\<rparr>,
      \<lparr>a_start = 8 / 5, a_end = 7 / 2, a_speaker = ''SPEAKER_01'', a_text = ''how are you''\<rparr>]"
proof -
  let ?asr = "[\<lparr>seg_start = 0, seg_end = 3 / 2, seg_text = ''hello world'', avg_logprob = - 1,
          no_speech_prob = 0\<rparr>,
         \<lparr>seg_start = 8 / 5, seg_end = 7 / 2, seg_text = ''how are you'', avg_logprob = - 1,
          no_speech_prob = 0\<rparr>]"
  have ws: "to_word_segments ?asr =
      [\<lparr>w_start = 0, w_end = 3 / 4, word = ''hello''\<rparr>,
       \<lparr>w_start = 3 / 4, w_end = 3 / 2, word = ''world''\<rparr>,
       \<lparr>w_start = 8 / 5, w_end = 67 / 30, word = ''how''\<rparr>,
       \<lparr>w_start = 67 / 30, w_end = 43 / 15, word = ''are''\<rparr>,
       \<lparr>w_start = 43 / 15, w_end = 7 / 2, word = ''you''\<rparr>]"
    by (simp add: py_isspace_def word_slices_def Let_def enumerate_eq_zip)
  have sw: "sort_key w_start (to_word_segments ?asr) = to_word_segments ?asr"
    unfolding ws by simp
  have sd: "sort_key d_start
      [\<lparr>d_start = 8 / 5, d_end = 7 / 2, d_speaker = ''SPEAKER_01''\<rparr>,
       \<lparr>d_start = 4, d_end = 5, d_speaker = ''SPEAKER_00''\<rparr>,
       \<lparr>d_start = 0, d_end = 3 / 2, d_speaker = ''SPEAKER_00''\<rparr>]
     = [\<lparr>d_start = 0, d_end = 3 / 2, d_speaker = ''SPEAKER_00''\<rparr>,
        \<lparr>d_start = 8 / 5, d_end = 7 / 2, d_speaker = ''SPEAKER_01''\<rparr>,
        \<lparr>d_start = 4, d_end = 5, d_speaker = ''SPEAKER_00''\<rparr>]"
    by simp
  have r: "round3 0 = 0" "round3 (3 / 2) = 3 / 2" "round3 (8 / 5) = 8 / 5" "round3 (7 / 2) = 7 / 2"
    by (simp_all add: round3_def Let_def)
  show ?thesis
    apply (subst speaker_mapper_segments)
    apply (simp only: sw sd)
    apply (simp only: ws)
    apply (simp add: r)
    done
qed

subsection \<open>Merging blocks\<close>

text \<open>The loop of \<open>merge_blocks_gap\<close> is \<open>merge_from\<close>, started at the first segment of the
  sorted input; its result is the fusion of the groups of \<open>merge_groups\<close>, which partition
  the sorted input.\<close>

lemma merge_loop_eq:
  "merge_loop g (pre @ [cur]) segs = pre @ merge_from g cur segs"
proof (induction segs arbitrary: pre cur)
  case Nil
  then show ?case by simp
next
  case (Cons seg segs)
  show ?case
  proof (cases "merge_test g cur seg")
    case True
    then have "merge_loop g (pre @ [cur]) (seg # segs) = merge_loop g (pre @ [absorb cur seg]) segs"
      by (simp add: merge_test_def absorb_def Let_def)
    then show ?thesis using True Cons.IH[of pre "absorb cur seg"] by simp
  next
    case False
    then have "merge_loop g (pre @ [cur]) (seg # segs) = merge_loop g ((pre @ [cur]) @ [seg]) segs"
      by (auto simp add: merge_test_def Let_def)
    then show ?thesis using False Cons.IH[of "pre @ [cur]" seg] by simp
  qed
qed

lemma merge_blocks_gap_eq:
  "merge_blocks_gap segs g =
     (case sort_key a_start segs of [] \<Rightarrow> [] | s # rest \<Rightarrow> merge_from g s rest)"
proof (cases segs)
  case Nil
  then show ?thesis by (simp add: merge_blocks_gap_def)
next
  case (Cons x xs)
  then have "sort_key a_start segs \<noteq> []"
    by (metis length_sort list.size(3) list.discI length_0_conv)
  then obtain s rest where e: "sort_key a_start segs = s # rest"
    by (cases "sort_key a_start segs") auto
  have "merge_loop g [s] rest = merge_from g s rest"
    using merge_loop_eq[of g "[]" s rest] by simp
  then show ?thesis using Cons e by (simp add: merge_blocks_gap_def Let_def)
qed

lemma merge_from_groups:
  "merge_from g cur segs = map fuse (merge_groups g cur grp segs)
     \<and> concat (merge_groups g cur grp segs) = grp @ segs"
  if "grp \<noteq> []" "fuse grp = cur"
  using that
proof (induction segs arbitrary: cur grp)
  case Nil
  then show ?case by simp
next
  case (Cons seg segs)
  show ?case
  proof (cases "merge_test g cur seg")
    case True
    have "fuse (grp @ [seg]) = absorb cur seg"
      using Cons.prems by (cases grp) (simp_all add: fuse_def)
    then show ?thesis using True Cons.IH[of "grp @ [seg]" "absorb cur seg"] by simp
  next
    case False
    have "fuse [seg] = seg" by (simp add: fuse_def)
    then show ?thesis using False Cons.IH[of "[seg]" seg] Cons.prems by simp
  qed
qed

lemma speaker_absorb [simp]: "a_speaker (absorb cur seg) = a_speaker cur"
  by (simp add: absorb_def)

lemma start_absorb [simp]: "a_start (absorb cur seg) = a_start cur"
  by (simp add: absorb_def)

lemma end_absorb [simp]: "a_end (absorb cur seg) = a_end seg"
  by (simp add: absorb_def)

lemma speaker_foldl_absorb [simp]: "a_speaker (foldl absorb cur segs) = a_speaker cur"
  by (induction segs arbitrary: cur) simp_all

lemma start_foldl_absorb [simp]: "a_start (foldl absorb cur segs) = a_start cur"
  by (induction segs arbitrary: cur) simp_all

lemma merge_groups_speaker:
  assumes "grp \<noteq> []" and "\<forall>s\<in>set grp. a_speaker s = a_speaker cur"
    and "grp' \<in> set (merge_groups g cur grp segs)"
  shows "grp' \<noteq> [] \<and> (\<forall>s\<in>set grp'. a_speaker s = a_speaker (hd grp'))"
  using assms
proof (induction segs arbitrary: cur grp)
  case Nil
  then show ?case by (cases grp) auto
next
  case (Cons seg segs)
  show ?case
  proof (cases "merge_test g cur seg")
    case True
    then have sp: "a_speaker seg = a_speaker cur" by (simp add: merge_test_def)
    from True Cons.prems(3)
    have mem: "grp' \<in> set (merge_groups g (absorb cur seg) (grp @ [seg]) segs)" by simp
    show ?thesis
    proof (rule Cons.IH[OF _ _ mem])
      show "grp @ [seg] \<noteq> []" by simp
      show "\<forall>s\<in>set (grp @ [seg]). a_speaker s = a_speaker (absorb cur seg)"
        using Cons.prems(2) sp by simp
    qed
  next
    case False
    with Cons.prems(3)
    have "grp' = grp \<or> grp' \<in> set (merge_groups g seg [seg] segs)" by simp
    then show ?thesis
    proof
      assume "grp' = grp"
      then show ?thesis using Cons.prems(1,2) by (cases grp) auto
    next
      assume mem: "grp' \<in> set (merge_groups g seg [seg] segs)"
      show ?thesis by (rule Cons.IH[OF _ _ mem]) simp_all
    qed
  qed
qed

text \<open>Rounding to three decimals is monotone, so a raw segment of the speaker mapper
  inherits \<open>start \<le> end\<close> from its diarization interval; its text starts and ends with a
  character of a word.\<close>

lemma round3_mono:
  assumes "x \<le> y"
  shows "round3 x \<le> round3 y"
proof -
  define u where "u = x * 1000"
  define v where "v = y * 1000"
  have uv: "u \<le> v" using assms by (simp add: u_def v_def)
  then have fl: "\<lfloor>u\<rfloor> \<le> \<lfloor>v\<rfloor>" by (rule floor_mono)
  let ?R = "\<lambda>w::real. if w - of_int \<lfloor>w\<rfloor> < 1 / 2 then (of_int \<lfloor>w\<rfloor> :: real)
          else if 1 / 2 < w - of_int \<lfloor>w\<rfloor> then of_int (\<lfloor>w\<rfloor> + 1)
          else if even \<lfloor>w\<rfloor> then of_int \<lfloor>w\<rfloor> else of_int (\<lfloor>w\<rfloor> + 1)"
  have lo: "of_int \<lfloor>w\<rfloor> \<le> ?R w" and hi: "?R w \<le> of_int (\<lfloor>w\<rfloor> + 1)" for w :: real
    by simp_all
  have "?R u \<le> ?R v"
  proof (cases "\<lfloor>u\<rfloor> < \<lfloor>v\<rfloor>")
    case True
    then have "\<lfloor>u\<rfloor> + 1 \<le> \<lfloor>v\<rfloor>" by simp
    then have "(of_int (\<lfloor>u\<rfloor> + 1) :: real) \<le> of_int \<lfloor>v\<rfloor>" by (simp only: of_int_le_iff)
    with hi[of u] lo[of v] show ?thesis by linarith
  next
    case False
    with fl have e: "\<lfloor>u\<rfloor> = \<lfloor>v\<rfloor>" by simp
    have "u - of_int \<lfloor>u\<rfloor> \<le> v - of_int \<lfloor>v\<rfloor>" using uv e by simp
    then show ?thesis using e by auto
  qed
  then have "?R u / 1000 \<le> ?R v / 1000" by (rule divide_right_mono) simp
  then show ?thesis unfolding round3_def Let_def u_def v_def .
qed

lemma raw_segment_shape:
  assumes "seg \<in> set (align_words_to_diarization (to_word_segments asr) diar)"
  shows "\<exists>d\<in>set diar. a_start seg = round3 (d_start d) \<and> a_end seg = round3 (d_end d)
      \<and> a_speaker seg = d_speaker d"
    and "a_text seg \<noteq> [] \<and> \<not> py_isspace (hd (a_text seg)) \<and> \<not> py_isspace (last (a_text seg))"
proof -
  let ?ws = "sort_key w_start (to_word_segments asr)"
  from assms have mem: "seg \<in> set (align_loop ?ws (sort_key d_start diar))"
    by (auto simp: align_words_to_diarization_def split: if_splits)
  then obtain d where d: "d \<in> set diar" "\<exists>w\<in>set ?ws. word_in d w"
    and seg: "seg = \<lparr>a_start = round3 (d_start d), a_end = round3 (d_end d),
                 a_speaker = d_speaker d,
                 a_text = py_strip (join_space (map word (filter (word_in d) ?ws)))\<rparr>"
    unfolding align_loop_eq by auto
  from d(1) seg show "\<exists>d\<in>set diar. a_start seg = round3 (d_start d)
      \<and> a_end seg = round3 (d_end d) \<and> a_speaker seg = d_speaker d"
    by auto
  let ?toks = "map word (filter (word_in d) ?ws)"
  have ne: "?toks \<noteq> []" using d(2) by (simp add: filter_empty_conv)
  have tok: "\<forall>w\<in>set ?toks. w \<noteq> [] \<and> (\<forall>c\<in>set w. \<not> py_isspace c)"
    using to_word_segments_tokens[of _ asr] by auto
  have strip: "py_strip (join_space ?toks) = join_space ?toks"
    by (rule py_strip_join_tokens[OF ne tok])
  have ends: "join_space ?toks \<noteq> [] \<and> hd (join_space ?toks) = hd (hd ?toks)
    \<and> last (join_space ?toks) = last (last ?toks)"
    by (rule join_space_ends[OF ne]) (use tok in blast)
  have "hd ?toks \<in> set ?toks" by (rule hd_in_set[OF ne])
  moreover have "last ?toks \<in> set ?toks" by (rule last_in_set[OF ne])
  ultimately have "hd ?toks \<noteq> []" "last ?toks \<noteq> []"
    and "\<forall>c\<in>set (hd ?toks). \<not> py_isspace c" "\<forall>c\<in>set (last ?toks). \<not> py_isspace c"
    using tok by blast+
  then have "\<not> py_isspace (hd (hd ?toks))" "\<not> py_isspace (last (last ?toks))"
    by simp_all
  with ends have "join_space ?toks \<noteq> [] \<and> \<not> py_isspace (hd (join_space ?toks))
      \<and> \<not> py_isspace (last (join_space ?toks))" by simp
  moreover have "a_text seg = join_space ?toks" using seg strip by simp
  ultimately show "a_text seg \<noteq> [] \<and> \<not> py_isspace (hd (a_text seg))
      \<and> \<not> py_isspace (last (a_text seg))" by simp
qed

lemma raw_segment_valid:
  assumes "seg \<in> set (align_words_to_diarization (to_word_segments asr) diar)"
    and "\<forall>d\<in>set diar. d_start d \<le> d_end d"
  shows "a_start seg \<le> a_end seg"
proof -
  from raw_segment_shape(1)[OF assms(1)] obtain d where "d \<in> set diar"
    and "a_start seg = round3 (d_start d)" and "a_end seg = round3 (d_end d)" by blast
  with assms(2) show ?thesis by (simp add: round3_mono)
qed

lemma merge_pair_gap0:
  assumes va: "a_start a \<le> a_end a" and vb: "a_start b \<le> a_end b"
    and sp: "a_speaker a = a_speaker b" and gap: "a_start b - a_end a = 0"
    and ta: "a_text a \<noteq> []" "\<not> py_isspace (hd (a_text a))"
    and tb: "a_text b \<noteq> []" "\<not> py_isspace (last (a_text b))"
  shows "merge_blocks [a, b] =
     [\<lparr>a_start = min (a_start a) (a_start b), a_end = max (a_end a) (a_end b),
       a_speaker = a_speaker a, a_text = a_text a @ '' '' @ a_text b\<rparr>]"
proof -
  have le: "a_start a \<le> a_start b" using va gap by simp
  then have s: "sort_key a_start [a, b] = [a, b]" by simp
  have t: "merge_test (3 / 4) a b" using sp gap by (simp add: merge_test_def)
  have m: "merge_from (3 / 4) a [b] = [absorb a b]" using t by simp
  have strip: "py_strip (a_text a @ '' '' @ a_text b) = a_text a @ '' '' @ a_text b"
  proof (rule py_strip_id)
    show "a_text a @ '' '' @ a_text b \<noteq> []" using ta by simp
    show "\<not> py_isspace (hd (a_text a @ '' '' @ a_text b))" using ta by simp
    show "\<not> py_isspace (last (a_text a @ '' '' @ a_text b))" using tb by simp
  qed
  have mn: "min (a_start a) (a_start b) = a_start a" using le by simp
  have mx: "max (a_end a) (a_end b) = a_end b" using vb gap by simp
  have "absorb a b = \<lparr>a_start = a_start a, a_end = a_end b,
       a_speaker = a_speaker a, a_text = a_text a @ '' '' @ a_text b\<rparr>"
    unfolding absorb_def strip by (cases a) simp
  then show ?thesis
    unfolding merge_blocks_def merge_blocks_gap_eq s mn mx by (simp only: list.case m)
qed

text \<open>A segment that passes the merge test with the segment directly before it in a sorted
  input ends up in the same group as that segment.\<close>

lemma merge_test_cong_left:
  "a_end x = a_end y \<Longrightarrow> a_speaker x = a_speaker y \<Longrightarrow> merge_test g x s = merge_test g y s"
  by (simp add: merge_test_def)

lemma first_group_prefix:
  "\<exists>r rest. merge_groups g cur grp segs = (grp @ r) # rest"
proof (induction segs arbitrary: cur grp)
  case Nil
  then show ?case by simp
next
  case (Cons seg segs)
  show ?case
  proof (cases "merge_test g cur seg")
    case True
    obtain r rest where "merge_groups g (absorb cur seg) (grp @ [seg]) segs = ((grp @ [seg]) @ r) # rest"
      using Cons.IH[of "absorb cur seg" "grp @ [seg]"] by blast
    then have "merge_groups g cur grp (seg # segs) = (grp @ (seg # r)) # rest"
      using True by simp
    then show ?thesis by blast
  next
    case False
    then have "merge_groups g cur grp (seg # segs) = (grp @ []) # merge_groups g seg [seg] segs"
      by simp
    then show ?thesis by blast
  qed
qed

lemma neighbours_same_group:
  assumes "merge_test g a b"
  shows "\<exists>grp'\<in>set (merge_groups g cur grp (pre @ a # b # post)). \<exists>l r. grp' = l @ a # b # r"
proof (induction pre arbitrary: cur grp)
  case Nil
  define cur' where "cur' = (if merge_test g cur a then absorb cur a else a)"
  define grp' where "grp' = (if merge_test g cur a then grp @ [a] else [a])"
  have l: "\<exists>l. grp' = l @ [a]" unfolding grp'_def by auto
  have "a_end cur' = a_end a" and "a_speaker cur' = a_speaker a"
    unfolding cur'_def by (auto simp: merge_test_def)
  then have t: "merge_test g cur' b"
    using assms merge_test_cong_left[of cur' a g b] by simp
  obtain r rest where f: "merge_groups g (absorb cur' b) (grp' @ [b]) post = ((grp' @ [b]) @ r) # rest"
    using first_group_prefix by blast
  have step: "merge_groups g cur' grp' (b # post) = ((grp' @ [b]) @ r) # rest"
    using t f by simp
  from l obtain l' where "grp' = l' @ [a]" by blast
  then have shape: "(grp' @ [b]) @ r = l' @ a # b # r" by simp
  have first: "merge_groups g cur grp (a # b # post)
      = (if merge_test g cur a then [] else [grp]) @ merge_groups g cur' grp' (b # post)"
    unfolding cur'_def grp'_def by (cases "merge_test g cur a") simp_all
  have "merge_groups g cur grp ([] @ a # b # post)
      = (if merge_test g cur a then [] else [grp]) @ ((l' @ a # b # r) # rest)"
    unfolding append_Nil first step shape ..
  then have "l' @ a # b # r \<in> set (merge_groups g cur grp ([] @ a # b # post))"
    by simp
  then show ?case by blast
next
  case (Cons x pre)
  show ?case
  proof (cases "merge_test g cur x")
    case True
    then show ?thesis using Cons.IH[of "absorb cur x" "grp @ [x]"] by simp
  next
    case False
    then show ?thesis using Cons.IH[of x "[x]"] by simp
  qed
qed

lemma neighbours_merged:
  assumes t: "merge_test g a b"
    and srt: "sorted (map a_start (pre @ a # b # post))"
  shows "\<exists>groups. concat groups = pre @ a # b # post
      \<and> merge_blocks_gap (pre @ a # b # post) g = map fuse groups
      \<and> (\<exists>grp\<in>set groups. \<exists>l r. grp = l @ a # b # r)"
proof -
  let ?xs = "pre @ a # b # post"
  obtain s rest where xs: "?xs = s # rest" by (cases pre) auto
  have srt': "sort_key a_start ?xs = s # rest"
    using srt xs by (simp only: sort_key_id_if_sorted)
  let ?groups = "merge_groups g s [s] rest"
  have f: "fuse [s] = s" by (simp add: fuse_def)
  have mg: "merge_from g s rest = map fuse ?groups \<and> concat ?groups = [s] @ rest"
    by (rule merge_from_groups) (simp_all add: f)
  have out: "merge_blocks_gap ?xs g = map fuse ?groups"
    unfolding merge_blocks_gap_eq srt' using mg by simp
  have cat: "concat ?groups = ?xs" using mg xs by simp
  have "\<exists>grp\<in>set ?groups. \<exists>l r. grp = l @ a # b # r"
  proof (cases pre)
    case Nil
    with xs have s: "s = a" and r: "rest = b # post" by simp_all
    obtain r' rest' where "merge_groups g (absorb a b) ([a] @ [b]) post = (([a] @ [b]) @ r') # rest'"
      using first_group_prefix by blast
    then have "merge_groups g a [a] (b # post) = ([] @ a # b # r') # rest'"
      using t by simp
    then show ?thesis unfolding s r by (metis list.set_intros(1))
  next
    case (Cons x pre')
    with xs have s: "s = x" and r: "rest = pre' @ a # b # post" by simp_all
    show ?thesis unfolding s r by (rule neighbours_same_group[OF t])
  qed
  with out cat show ?thesis by (intro exI[of _ ?groups]) simp
qed

text \<open>
  Claim C3. Let \<open>a\<close> and \<open>b\<close> be raw segments of the speaker mapper, for a diarization
  whose intervals satisfy \<open>start \<le> end\<close> (the invariant of the data model), with the same
  speaker label and a gap of exactly 0 between the end of \<open>a\<close> and the start of \<open>b\<close>. Then
  the block merger merges the pair into the one segment that spans
  \<open>[min(start), max(end)]\<close> and whose text is the text of \<open>a\<close>, a space and the text of \<open>b\<close>.
  Moreover, wherever \<open>a\<close> is directly followed by \<open>b\<close> in a sequence sorted by start, both
  are absorbed into the same output segment.
\<close>

theorem gap0_same_speaker_merge:
  assumes a_raw: "a \<in> set (align_words_to_diarization (to_word_segments asr) diar)"
    and b_raw: "b \<in> set (align_words_to_diarization (to_word_segments asr) diar)"
    and valid: "\<forall>d\<in>set diar. d_start d \<le> d_end d"
    and speaker: "a_speaker a = a_speaker b"
    and gap: "a_start b - a_end a = 0"
  shows "merge_blocks [a, b] =
       [\<lparr>a_start = min (a_start a) (a_start b), a_end = max (a_end a) (a_end b),
         a_speaker = a_speaker a, a_text = a_text a @ '' '' @ a_text b\<rparr>]
     \<and> (sorted (map a_start (pre @ a # b # post)) \<longrightarrow>
          (\<exists>groups. concat groups = pre @ a # b # post
             \<and> merge_blocks (pre @ a # b # post) = map fuse groups
             \<and> (\<exists>grp\<in>set groups. \<exists>l r. grp = l @ a # b # r)))"
proof
  show "merge_blocks [a, b] =
       [\<lparr>a_start = min (a_start a) (a_start b), a_end = max (a_end a) (a_end b),
         a_speaker = a_speaker a, a_text = a_text a @ '' '' @ a_text b\<rparr>]"
  proof (rule merge_pair_gap0[OF _ _ speaker gap])
    show "a_start a \<le> a_end a" by (rule raw_segment_valid[OF a_raw valid])
    show "a_start b \<le> a_end b" by (rule raw_segment_valid[OF b_raw valid])
    show "a_text a \<noteq> []" "\<not> py_isspace (hd (a_text a))"
      using raw_segment_shape(2)[OF a_raw] by simp_all
    show "a_text b \<noteq> []" "\<not> py_isspace (last (a_text b))"
      using raw_segment_shape(2)[OF b_raw] by simp_all
  qed
next
  have t: "merge_test (3 / 4) a b" using speaker gap by (simp add: merge_test_def)
  show "sorted (map a_start (pre @ a # b # post)) \<longrightarrow>
          (\<exists>groups. concat groups = pre @ a # b # post
             \<and> merge_blocks (pre @ a # b # post) = map fuse groups
             \<and> (\<exists>grp\<in>set groups. \<exists>l r. grp = l @ a # b # r))"
    unfolding merge_blocks_def using neighbours_merged[OF t] by blast
qed

text \<open>The recognition segment "hello world" on \<open>[0, 1.5]\<close> with the diarization
  \<open>[0, 0.75]\<close>, \<open>[0.75, 1.5]\<close> of one speaker: the two raw segments merge into
  \<open>[0, 1.5]\<close> "hello world".\<close>

theorem gap0_same_speaker_merge_witness:
  "merge_blocks
     [\<lparr>a_start = 0, a_end = 3 / 4, a_speaker = ''S0'', a_text = ''hello''\<rparr>,
      \<lparr>a_start = 3 / 4, a_end = 3 / 2, a_speaker = ''S0'', a_text = ''world''\<rparr>]
   = [\<lparr>a_start = 0, a_end = 3 / 2, a_speaker = ''S0'', a_text = ''hello world''\<rparr>]"
proof -
  let ?asr = "[\<lparr>seg_start = 0, seg_end = 3 / 2, seg_text = ''hello world'', avg_logprob = - 1,
          no_speech_prob = 0\<rparr>]"
  let ?diar = "[\<lparr>d_start = 0, d_end = 3 / 4, d_speaker = ''S0''\<rparr>,
      \<lparr>d_start = 3 / 4, d_end = 3 / 2, d_speaker = ''S0''\<rparr>]"
  let ?a = "\<lparr>a_start = 0, a_end = 3 / 4, a_speaker = ''S0'', a_text = ''hello''\<rparr>"
  let ?b = "\<lparr>a_start = 3 / 4, a_end = 3 / 2, a_speaker = ''S0'', a_text = ''world''\<rparr>"
  have ws: "to_word_segments ?asr =
      [\<lparr>w_start = 0, w_end = 3 / 4, word = ''hello''\<rparr>,
       \<lparr>w_start = 3 / 4, w_end = 3 / 2, word = ''world''\<rparr>]"
    by (simp add: py_isspace_def word_slices_def Let_def enumerate_eq_zip)
  have r: "round3 0 = 0" "round3 (3 / 4) = 3 / 4" "round3 (3 / 2) = 3 / 2"
    by (simp_all add: round3_def Let_def)
  have raw: "align_words_to_diarization (to_word_segments ?asr) ?diar = [?a, ?b]"
    unfolding ws
    by (simp add: align_words_to_diarization_def word_in_def r py_strip_def py_isspace_def)
  have a_raw: "?a \<in> set (align_words_to_diarization (to_word_segments ?asr) ?diar)"
    and b_raw: "?b \<in> set (align_words_to_diarization (to_word_segments ?asr) ?diar)"
    unfolding raw by simp_all
  have valid: "\<forall>d\<in>set ?diar. d_start d \<le> d_end d" by simp
  have speaker: "a_speaker ?a = a_speaker ?b" by simp
  have gap: "a_start ?b - a_end ?a = 0" by simp
  from gap0_same_speaker_merge [OF a_raw b_raw valid speaker gap]
  have "merge_blocks [?a, ?b] =
       [\<lparr>a_start = min (a_start ?a) (a_start ?b), a_end = max (a_end ?a) (a_end ?b),
         a_speaker = a_speaker ?a, a_text = a_text ?a @ '' '' @ a_text ?b\<rparr>]"
    by (rule conjunct1)
  then show ?thesis by simp
qed

text \<open>
  Claim C4. For every input sequence and every maximal gap, the sorted input splits into
  consecutive non-empty groups such that the output of the block merger is the list of the
  fused groups, one output segment per group, and all segments of a group carry the speaker
  label of the output segment they were merged into. In particular two segments with
  different speaker labels are both kept, whatever the maximal gap.
\<close>

theorem merged_groups_single_speaker:
  "(\<exists>groups. concat groups = sort_key a_start segments
       \<and> merge_blocks_gap segments max_gap = map fuse groups
       \<and> (\<forall>grp\<in>set groups. grp \<noteq> []
             \<and> (\<forall>s\<in>set grp. a_speaker s = a_speaker (fuse grp))))
   \<and> (a_speaker a \<noteq> a_speaker b \<longrightarrow>
         merge_blocks_gap [a, b] max_gap = sort_key a_start [a, b])"
proof
  show "\<exists>groups. concat groups = sort_key a_start segments
       \<and> merge_blocks_gap segments max_gap = map fuse groups
       \<and> (\<forall>grp\<in>set groups. grp \<noteq> []
             \<and> (\<forall>s\<in>set grp. a_speaker s = a_speaker (fuse grp)))"
  proof (cases "sort_key a_start segments")
    case Nil
    then have "merge_blocks_gap segments max_gap = []"
      by (simp add: merge_blocks_gap_eq)
    with Nil show ?thesis by (intro exI[of _ "[]"]) simp
  next
    case (Cons s rest)
    let ?groups = "merge_groups max_gap s [s] rest"
    have f: "fuse [s] = s" by (simp add: fuse_def)
    have "merge_from max_gap s rest = map fuse ?groups \<and> concat ?groups = [s] @ rest"
      by (rule merge_from_groups) (simp_all add: f)
    then have out: "merge_blocks_gap segments max_gap = map fuse ?groups"
      and cat: "concat ?groups = sort_key a_start segments"
      using Cons by (simp_all add: merge_blocks_gap_eq)
    have single: "grp \<noteq> [] \<and> (\<forall>s\<in>set grp. a_speaker s = a_speaker (fuse grp))"
      if "grp \<in> set ?groups" for grp
    proof -
      have sf: "a_speaker (fuse grp) = a_speaker (hd grp)" by (simp add: fuse_def)
      show ?thesis unfolding sf
        by (rule merge_groups_speaker[OF _ _ that]) simp_all
    qed
    show ?thesis
    proof (intro exI[of _ ?groups] conjI ballI)
      show "concat ?groups = sort_key a_start segments" by (rule cat)
      show "merge_blocks_gap segments max_gap = map fuse ?groups" by (rule out)
      show "grp \<noteq> []" if "grp \<in> set ?groups" for grp
        using single[OF that] by (rule conjunct1)
      show "a_speaker s = a_speaker (fuse grp)" if "grp \<in> set ?groups" "s \<in> set grp" for grp s
        using single[OF that(1)] that(2) by blast
    qed
  qed
next
  show "a_speaker a \<noteq> a_speaker b \<longrightarrow>
         merge_blocks_gap [a, b] max_gap = sort_key a_start [a, b]"
  proof
    assume d: "a_speaker a \<noteq> a_speaker b"
    show "merge_blocks_gap [a, b] max_gap = sort_key a_start [a, b]"
    proof (cases "a_start a \<le> a_start b")
      case True
      then have s: "sort_key a_start [a, b] = [a, b]" by simp
      have m: "merge_from max_gap a [b] = [a, b]" using d by (simp add: merge_test_def)
      show ?thesis unfolding merge_blocks_gap_eq s by (simp only: list.case m)
    next
      case False
      then have s: "sort_key a_start [a, b] = [b, a]" by simp
      have m: "merge_from max_gap b [a] = [b, a]" using d by (simp add: merge_test_def)
      show ?thesis unfolding merge_blocks_gap_eq s by (simp only: list.case m)
    qed
  qed
qed

text \<open>Three segments given out of order, two of speaker A with gap 0 and one of speaker B;
  and two segments of different speakers with gap 0 under a maximal gap of 1000 seconds,
  which stay apart.\<close>

theorem merged_groups_single_speaker_witness:
  "(\<exists>groups.
      concat groups =
        [\<lparr>a_start = 0, a_end = 1, a_speaker = ''A'', a_text = ''x''\<rparr>,
         \<lparr>a_start = 1, a_end = 2, a_speaker = ''A'', a_text = ''y''\<rparr>,
         \<lparr>a_start = 2, a_end = 3, a_speaker = ''B'', a_text = ''z''\<rparr>]
      \<and> merge_blocks_gap
          [\<lparr>a_start = 2, a_end = 3, a_speaker = ''B'', a_text = ''z''\<rparr>,
           \<lparr>a_start = 0, a_end = 1, a_speaker = ''A'', a_text = ''x''\<rparr>,
           \<lparr>a_start = 1, a_end = 2, a_speaker = ''A'', a_text = ''y''\<rparr>] (3 / 4)
          = map fuse groups
      \<and> (\<forall>grp\<in>set groups. grp \<noteq> []
            \<and> (\<forall>s\<in>set grp. a_speaker s = a_speaker (fuse grp))))
   \<and> merge_blocks_gap
         [\<lparr>a_start = 0, a_end = 1, a_speaker = ''A'', a_text = ''x''\<rparr>,
          \<lparr>a_start = 1, a_end = 2, a_speaker = ''B'', a_text = ''y''\<rparr>] 1000
       = [\<lparr>a_start = 0, a_end = 1, a_speaker = ''A'', a_text = ''x''\<rparr>,
          \<lparr>a_start = 1, a_end = 2, a_speaker = ''B'', a_text = ''y''\<rparr>]"
proof
  let ?a1 = "\<lparr>a_start = 0, a_end = 1, a_speaker = ''A'', a_text = ''x''\<rparr>"
  let ?a2 = "\<lparr>a_start = 1, a_end = 2, a_speaker = ''A'', a_text = ''y''\<rparr>"
  let ?b = "\<lparr>a_start = 2, a_end = 3, a_speaker = ''B'', a_text = ''z''\<rparr>"
  have s: "sort_key a_start [?b, ?a1, ?a2] = [?a1, ?a2, ?b]" by simp
  from merged_groups_single_speaker [of "[?b, ?a1, ?a2]" "3 / 4"]
  have "\<exists>groups. concat groups = sort_key a_start [?b, ?a1, ?a2]
       \<and> merge_blocks_gap [?b, ?a1, ?a2] (3 / 4) = map fuse groups
       \<and> (\<forall>grp\<in>set groups. grp \<noteq> []
             \<and> (\<forall>s\<in>set grp. a_speaker s = a_speaker (fuse grp)))"
    by (rule conjunct1)
  then show "\<exists>groups. concat groups = [?a1, ?a2, ?b]
       \<and> merge_blocks_gap [?b, ?a1, ?a2] (3 / 4) = map fuse groups
       \<and> (\<forall>grp\<in>set groups. grp \<noteq> []
             \<and> (\<forall>s\<in>set grp. a_speaker s = a_speaker (fuse grp)))"
    unfolding s .
next
  let ?p = "\<lparr>a_start = 0, a_end = 1, a_speaker = ''A'', a_text = ''x''\<rparr>"
  let ?q = "\<lparr>a_start = 1, a_end = 2, a_speaker = ''B'', a_text = ''y''\<rparr>"
  have d: "a_speaker ?p \<noteq> a_speaker ?q" by simp
  have s: "sort_key a_start [?p, ?q] = [?p, ?q]" by simp
  from merged_groups_single_speaker [of _ 1000 ?p ?q] d
  have "merge_blocks_gap [?p, ?q] 1000 = sort_key a_start [?p, ?q]" by blast
  then show "merge_blocks_gap [?p, ?q] 1000 = [?p, ?q]" unfolding s .
qed

text \<open>The output of the loop is sorted by start, no kept segment passes the merge test
  with the segment kept before it, and a sorted input without such a pair is returned as it
  is.\<close>

lemma merge_from_head:
  "\<exists>x xs. merge_from g cur segs = x # xs \<and> a_start x = a_start cur
      \<and> a_speaker x = a_speaker cur"
proof (induction segs arbitrary: cur)
  case Nil
  then show ?case by simp
next
  case (Cons seg segs)
  show ?case
  proof (cases "merge_test g cur seg")
    case True
    then show ?thesis using Cons.IH[of "absorb cur seg"] by simp
  next
    case False
    then show ?thesis by simp
  qed
qed

lemma merge_from_starts:
  "a_start ` set (merge_from g cur segs) \<subseteq> a_start ` set (cur # segs)"
proof (induction segs arbitrary: cur)
  case Nil
  then show ?case by simp
next
  case (Cons seg segs)
  show ?case
  proof (cases "merge_test g cur seg")
    case True
    have "a_start ` set (merge_from g (absorb cur seg) segs)
        \<subseteq> a_start ` set (absorb cur seg # segs)" by (rule Cons.IH)
    then show ?thesis using True by auto
  next
    case False
    have "a_start ` set (merge_from g seg segs) \<subseteq> a_start ` set (seg # segs)"
      by (rule Cons.IH)
    then show ?thesis using False by auto
  qed
qed

lemma sorted_merge_from:
  "sorted (map a_start (cur # segs)) \<Longrightarrow> sorted (map a_start (merge_from g cur segs))"
proof (induction segs arbitrary: cur)
  case Nil
  then show ?case by simp
next
  case (Cons seg segs)
  show ?case
  proof (cases "merge_test g cur seg")
    case True
    from Cons.prems have "sorted (map a_start (absorb cur seg # segs))" by simp
    then show ?thesis using True Cons.IH by simp
  next
    case False
    from Cons.prems have tl: "sorted (map a_start (seg # segs))"
      and le: "\<forall>t\<in>a_start ` set (seg # segs). a_start cur \<le> t" by auto
    have "\<forall>t\<in>a_start ` set (merge_from g seg segs). a_start cur \<le> t"
      using le merge_from_starts[of g seg segs] by blast
    then show ?thesis using False Cons.IH[OF tl] by auto
  qed
qed

lemma merge_test_cong:
  "a_start x = a_start y \<Longrightarrow> a_speaker x = a_speaker y \<Longrightarrow>
   merge_test g cur x = merge_test g cur y"
  by (simp add: merge_test_def)

lemma successively_merge_from:
  "successively (\<lambda>p s. \<not> merge_test g p s) (merge_from g cur segs)"
proof (induction segs arbitrary: cur)
  case Nil
  then show ?case by simp
next
  case (Cons seg segs)
  show ?case
  proof (cases "merge_test g cur seg")
    case True
    then show ?thesis using Cons.IH by simp
  next
    case False
    obtain x xs where e: "merge_from g seg segs = x # xs"
      and st: "a_start x = a_start seg" and sp: "a_speaker x = a_speaker seg"
      using merge_from_head[of g seg segs] by blast
    have "\<not> merge_test g cur x"
      using False merge_test_cong[OF st sp] by simp
    moreover have "successively (\<lambda>p s. \<not> merge_test g p s) (x # xs)"
      using Cons.IH[of seg] e by simp
    ultimately show ?thesis using False e by simp
  qed
qed

lemma merge_from_id:
  "successively (\<lambda>p s. \<not> merge_test g p s) (cur # segs) \<Longrightarrow> merge_from g cur segs = cur # segs"
  by (induction segs arbitrary: cur) simp_all

lemma sorted_merge_blocks_gap: "sorted (map a_start (merge_blocks_gap segs g))"
proof (cases "sort_key a_start segs")
  case Nil
  then show ?thesis by (simp add: merge_blocks_gap_eq)
next
  case (Cons s rest)
  have "sorted (map a_start (sort_key a_start segs))" by (rule sorted_sort_key)
  then have "sorted (map a_start (s # rest))" unfolding Cons .
  then have "sorted (map a_start (merge_from g s rest))" by (rule sorted_merge_from)
  then show ?thesis unfolding merge_blocks_gap_eq Cons by simp
qed

lemma successively_merge_blocks_gap:
  "successively (\<lambda>p s. \<not> merge_test g p s) (merge_blocks_gap segs g)"
proof (cases "sort_key a_start segs")
  case Nil
  then show ?thesis by (simp add: merge_blocks_gap_eq)
next
  case (Cons s rest)
  show ?thesis unfolding merge_blocks_gap_eq Cons
    using successively_merge_from[of g s rest] by simp
qed

lemma merge_blocks_gap_id:
  assumes "sorted (map a_start segs)"
    and "successively (\<lambda>p s. \<not> merge_test g p s) segs"
  shows "merge_blocks_gap segs g = segs"
proof (cases segs)
  case Nil
  then show ?thesis by (simp add: merge_blocks_gap_def)
next
  case (Cons s rest)
  have "sort_key a_start segs = s # rest"
    using assms(1) Cons by (simp only: sort_key_id_if_sorted)
  moreover have "merge_from g s rest = s # rest"
    using assms(2) Cons by (simp only: merge_from_id)
  ultimately show ?thesis using Cons unfolding merge_blocks_gap_eq by simp
qed

text \<open>
  Claim C6, as amended. Every sequence produced by the block merger is ordered by start,
  not necessarily strictly, and contains no two directly adjacent entries that have the same
  speaker label and are separated by a gap \<open>next.start - previous.end\<close> within \<open>[0, 0.75]\<close>.
\<close>

theorem merged_sorted_no_mergeable_neighbours:
  "sorted (map a_start (merge_blocks segments))
   \<and> successively
        (\<lambda>prev cand. \<not> (a_speaker cand = a_speaker prev
                          \<and> 0 \<le> a_start cand - a_end prev
                          \<and> a_start cand - a_end prev \<le> 3 / 4))
        (merge_blocks segments)"
proof -
  have e: "(\<lambda>prev cand. \<not> (a_speaker cand = a_speaker prev
                          \<and> 0 \<le> a_start cand - a_end prev
                          \<and> a_start cand - a_end prev \<le> 3 / 4))
        = (\<lambda>p s. \<not> merge_test (3 / 4) p s)"
    unfolding merge_test_def ..
  show ?thesis
    unfolding e merge_blocks_def
    by (intro conjI sorted_merge_blocks_gap successively_merge_blocks_gap)
qed

text \<open>
  Claim C6 as stated fails twice on the recognition segment "a b c" over \<open>[0, 3]\<close> with the
  diarization \<open>[0, 1]\<close> of S0, \<open>[0, 2]\<close> of S1 and \<open>[1, 3]\<close> of S1: the first two output
  segments both start at 0, so the order is not strict, and the last two have the same
  speaker and the gap \<open>1 - 2 = - 1 \<le> 0.75\<close>, which the test \<open>0 \<le> gap\<close> keeps apart.
\<close>

theorem merged_not_strict_counterexample:
  "merge_blocks
     (align_words_to_diarization
        (to_word_segments
           [\<lparr>seg_start = 0, seg_end = 3, seg_text = ''a b c'', avg_logprob = - 1,
             no_speech_prob = 0\<rparr>])
        [\<lparr>d_start = 0, d_end = 1, d_speaker = ''S0''\<rparr>,
         \<lparr>d_start = 0, d_end = 2, d_speaker = ''S1''\<rparr>,
         \<lparr>d_start = 1, d_end = 3, d_speaker = ''S1''\<rparr>])
   = [\<lparr>a_start = 0, a_end = 1, a_speaker = ''S0'', a_text = ''a''\<rparr>,
      \<lparr>a_start = 0, a_end = 2, a_speaker = ''S1'', a_text = ''a b''\<rparr>,
      \<lparr>a_start = 1, a_end = 3, a_speaker = ''S1'', a_text = ''b c''\<rparr>]"
proof -
  have ws: "to_word_segments
           [\<lparr>seg_start = 0, seg_end = 3, seg_text = ''a b c'', avg_logprob = - 1,
             no_speech_prob = 0\<rparr>]
     = [\<lparr>w_start = 0, w_end = 1, word = ''a''\<rparr>,
        \<lparr>w_start = 1, w_end = 2, word = ''b''\<rparr>,
        \<lparr>w_start = 2, w_end = 3, word = ''c''\<rparr>]"
    by (simp add: py_isspace_def word_slices_def Let_def enumerate_eq_zip)
  have r: "round3 0 = 0" "round3 1 = 1" "round3 2 = 2" "round3 3 = 3"
    by (simp_all add: round3_def Let_def)
  have raw: "align_words_to_diarization
        [\<lparr>w_start = 0, w_end = 1, word = ''a''\<rparr>,
        \<lparr>w_start = 1, w_end = 2, word = ''b''\<rparr>,
        \<lparr>w_start = 2, w_end = 3, word = ''c''\<rparr>]
        [\<lparr>d_start = 0, d_end = 1, d_speaker = ''S0''\<rparr>,
         \<lparr>d_start = 0, d_end = 2, d_speaker = ''S1''\<rparr>,
         \<lparr>d_start = 1, d_end = 3, d_speaker = ''S1''\<rparr>]
    = [\<lparr>a_start = 0, a_end = 1, a_speaker = ''S0'', a_text = ''a''\<rparr>,
      \<lparr>a_start = 0, a_end = 2, a_speaker = ''S1'', a_text = ''a b''\<rparr>,
      \<lparr>a_start = 1, a_end = 3, a_speaker = ''S1'', a_text = ''b c''\<rparr>]"
    by (simp add: align_words_to_diarization_def word_in_def r py_strip_def py_isspace_def)
  show ?thesis
    unfolding ws raw
    by (simp add: merge_blocks_def merge_blocks_gap_def Let_def)
qed

text \<open>
  Claim C7, as amended. A sequence that is sorted by start and contains no directly adjacent
  same-speaker pair with a gap within \<open>[0, 0.75]\<close> is returned unchanged by the block merger;
  in particular, running the block merger twice on any input equals running it once.
\<close>

theorem merge_blocks_idempotent:
  "(sorted (map a_start segments)
      \<and> successively
           (\<lambda>prev cand. \<not> (a_speaker cand = a_speaker prev
                             \<and> 0 \<le> a_start cand - a_end prev
                             \<and> a_start cand - a_end prev \<le> 3 / 4))
           segments
      \<longrightarrow> merge_blocks segments = segments)
   \<and> merge_blocks (merge_blocks segments) = merge_blocks segments"
proof -
  have e: "(\<lambda>prev cand. \<not> (a_speaker cand = a_speaker prev
                          \<and> 0 \<le> a_start cand - a_end prev
                          \<and> a_start cand - a_end prev \<le> 3 / 4))
        = (\<lambda>p s. \<not> merge_test (3 / 4) p s)"
    unfolding merge_test_def ..
  have "merge_blocks_gap (merge_blocks_gap segments (3 / 4)) (3 / 4)
      = merge_blocks_gap segments (3 / 4)"
    by (rule merge_blocks_gap_id) (rule sorted_merge_blocks_gap successively_merge_blocks_gap)+
  then show ?thesis
    unfolding e merge_blocks_def using merge_blocks_gap_id[of segments "3 / 4"] by blast
qed

text \<open>Three sorted segments: the first two have the same speaker and a gap of one second,
  the last two have a gap of 0 and different speakers.\<close>

theorem merge_blocks_idempotent_witness:
  "merge_blocks
     [\<lparr>a_start = 0, a_end = 1, a_speaker = ''S0'', a_text = ''a''\<rparr>,
      \<lparr>a_start = 2, a_end = 3, a_speaker = ''S0'', a_text = ''b''\<rparr>,
      \<lparr>a_start = 3, a_end = 4, a_speaker = ''S1'', a_text = ''c''\<rparr>]
   = [\<lparr>a_start = 0, a_end = 1, a_speaker = ''S0'', a_text = ''a''\<rparr>,
      \<lparr>a_start = 2, a_end = 3, a_speaker = ''S0'', a_text = ''b''\<rparr>,
      \<lparr>a_start = 3, a_end = 4, a_speaker = ''S1'', a_text = ''c''\<rparr>]"
proof -
  let ?segs = "[\<lparr>a_start = 0, a_end = 1, a_speaker = ''S0'', a_text = ''a''\<rparr>,
      \<lparr>a_start = 2, a_end = 3, a_speaker = ''S0'', a_text = ''b''\<rparr>,
      \<lparr>a_start = 3, a_end = 4, a_speaker = ''S1'', a_text = ''c''\<rparr>]"
  have h: "sorted (map a_start ?segs)
      \<and> successively
           (\<lambda>prev cand. \<not> (a_speaker cand = a_speaker prev
                             \<and> 0 \<le> a_start cand - a_end prev
                             \<and> a_start cand - a_end prev \<le> 3 / 4))
           ?segs"
    by simp
  from merge_blocks_idempotent [of ?segs] h show ?thesis by blast
qed

text \<open>
  Claim C7 as stated fails for a sequence that is not sorted by start: the two segments
  \<open>[5, 6]\<close> of S0 and \<open>[0, 1]\<close> of S1 form no mergeable pair, and the block merger returns
  them in the other order.
\<close>

theorem merge_blocks_unsorted_counterexample:
  "successively
     (\<lambda>prev cand. \<not> (a_speaker cand = a_speaker prev
                       \<and> 0 \<le> a_start cand - a_end prev
                       \<and> a_start cand - a_end prev \<le> 3 / 4))
     [\<lparr>a_start = 5, a_end = 6, a_speaker = ''S0'', a_text = ''b''\<rparr>,
      \<lparr>a_start = 0, a_end = 1, a_speaker = ''S1'', a_text = ''a''\<rparr>]
   \<and> merge_blocks
       [\<lparr>a_start = 5, a_end = 6, a_speaker = ''S0'', a_text = ''b''\<rparr>,
        \<lparr>a_start = 0, a_end = 1, a_speaker = ''S1'', a_text = ''a''\<rparr>]
     = [\<lparr>a_start = 0, a_end = 1, a_speaker = ''S1'', a_text = ''a''\<rparr>,
        \<lparr>a_start = 5, a_end = 6, a_speaker = ''S0'', a_text = ''b''\<rparr>]"
  by (simp add: merge_blocks_def merge_blocks_gap_def Let_def)

subsection \<open>Confidence of the aligned segments\<close>

text \<open>The lookup loop returns the first recognition segment of maximal overlap, if some
  overlap is positive, and nothing otherwise; a confidence that is returned is the clamped
  product and lies in \<open>[0, 1]\<close>.\<close>

lemma overlap_nonneg: "0 \<le> overlap a b c d"
  by (simp add: overlap_def)

lemma best_loop_first_max:
  "((\<forall>d\<in>set asr. overlap s e (seg_start d) (seg_end d) \<le> bo)
      \<and> best_loop s e best bo asr = best)
   \<or> (\<exists>pre b post. asr = pre @ b # post \<and> best_loop s e best bo asr = Some b
        \<and> bo < overlap s e (seg_start b) (seg_end b)
        \<and> (\<forall>d\<in>set pre. overlap s e (seg_start d) (seg_end d)
               < overlap s e (seg_start b) (seg_end b))
        \<and> (\<forall>d\<in>set post. overlap s e (seg_start d) (seg_end d)
               \<le> overlap s e (seg_start b) (seg_end b)))"
proof (induction asr arbitrary: best bo)
  case Nil
  then show ?case by simp
next
  case (Cons d asr)
  let ?ov = "\<lambda>x. overlap s e (seg_start x) (seg_end x)"
  show ?case
  proof (cases "bo < ?ov d")
    case True
    then have step: "best_loop s e best bo (d # asr) = best_loop s e (Some d) (?ov d) asr"
      by (simp add: Let_def)
    from Cons.IH[where best = "Some d" and bo = "?ov d"] show ?thesis
    proof
      assume h: "(\<forall>x\<in>set asr. ?ov x \<le> ?ov d) \<and> best_loop s e (Some d) (?ov d) asr = Some d"
      have "d # asr = [] @ d # asr \<and> best_loop s e best bo (d # asr) = Some d
          \<and> bo < ?ov d \<and> (\<forall>x\<in>set []. ?ov x < ?ov d) \<and> (\<forall>x\<in>set asr. ?ov x \<le> ?ov d)"
        using h True step by simp
      then show ?thesis by blast
    next
      assume "\<exists>pre b post. asr = pre @ b # post \<and> best_loop s e (Some d) (?ov d) asr = Some b
        \<and> ?ov d < ?ov b \<and> (\<forall>x\<in>set pre. ?ov x < ?ov b) \<and> (\<forall>x\<in>set post. ?ov x \<le> ?ov b)"
      then obtain pre b post where h: "asr = pre @ b # post"
        "best_loop s e (Some d) (?ov d) asr = Some b" "?ov d < ?ov b"
        "\<forall>x\<in>set pre. ?ov x < ?ov b" "\<forall>x\<in>set post. ?ov x \<le> ?ov b" by blast
      have "d # asr = (d # pre) @ b # post \<and> best_loop s e best bo (d # asr) = Some b
          \<and> bo < ?ov b \<and> (\<forall>x\<in>set (d # pre). ?ov x < ?ov b) \<and> (\<forall>x\<in>set post. ?ov x \<le> ?ov b)"
        using h True step by simp
      then show ?thesis by blast
    qed
  next
    case False
    then have step: "best_loop s e best bo (d # asr) = best_loop s e best bo asr"
      by (simp add: Let_def)
    from Cons.IH[where best = best and bo = bo] show ?thesis
    proof
      assume "(\<forall>x\<in>set asr. ?ov x \<le> bo) \<and> best_loop s e best bo asr = best"
      then show ?thesis using False step by simp
    next
      assume "\<exists>pre b post. asr = pre @ b # post \<and> best_loop s e best bo asr = Some b
        \<and> bo < ?ov b \<and> (\<forall>x\<in>set pre. ?ov x < ?ov b) \<and> (\<forall>x\<in>set post. ?ov x \<le> ?ov b)"
      then obtain pre b post where h: "asr = pre @ b # post"
        "best_loop s e best bo asr = Some b" "bo < ?ov b"
        "\<forall>x\<in>set pre. ?ov x < ?ov b" "\<forall>x\<in>set post. ?ov x \<le> ?ov b" by blast
      have "d # asr = (d # pre) @ b # post \<and> best_loop s e best bo (d # asr) = Some b
          \<and> bo < ?ov b \<and> (\<forall>x\<in>set (d # pre). ?ov x < ?ov b) \<and> (\<forall>x\<in>set post. ?ov x \<le> ?ov b)"
        using h False step by simp
      then show ?thesis by blast
    qed
  qed
qed

lemma confidence_from_whisper_value:
  assumes "confidence_from_whisper b = Inr c"
  shows "c = max 0 (min 1 (1 / (1 + exp (- avg_logprob b)) * (1 - no_speech_prob b)))"
    and "0 \<le> c" and "c \<le> 1"
  using assms
  by (auto simp: confidence_from_whisper_def math_exp_def Let_def split: if_splits)

lemma confidence_from_whisper_returns:
  "- exp_max_arg \<le> avg_logprob b \<Longrightarrow> \<exists>c. confidence_from_whisper b = Inr c"
  by (simp add: confidence_from_whisper_def math_exp_def Let_def)

lemma attach_loop_member:
  assumes "attach_loop asr merged = Inr out" and "seg \<in> set out"
  shows "\<exists>m\<in>set merged. a_start seg = a_start m \<and> a_end seg = a_end m
      \<and> a_speaker seg = a_speaker m \<and> a_text seg = a_text m
      \<and> (case best_diar_for_asr (a_start m) (a_end m) asr of
            None \<Rightarrow> confidence seg = 1 / 2
          | Some b \<Rightarrow> confidence_from_whisper b = Inr (confidence seg))"
  using assms
proof (induction merged arbitrary: out)
  case Nil
  then show ?case by simp
next
  case (Cons m merged)
  from Cons.prems(1) obtain c rest where
    c: "(case best_diar_for_asr (a_start m) (a_end m) asr of
           Some best \<Rightarrow> confidence_from_whisper best | None \<Rightarrow> Inr (1 / 2)) = Inr c"
    and rest: "attach_loop asr merged = Inr rest"
    and out: "out = \<lparr>a_start = a_start m, a_end = a_end m, a_speaker = a_speaker m,
                     a_text = a_text m, confidence = c, gender = None,
                     gender_confidence = None\<rparr> # rest"
    by (auto split: sum.splits)
  from Cons.prems(2) out consider
    "seg = \<lparr>a_start = a_start m, a_end = a_end m, a_speaker = a_speaker m,
                     a_text = a_text m, confidence = c, gender = None,
                     gender_confidence = None\<rparr>" | "seg \<in> set rest" by auto
  then show ?case
  proof cases
    case 1
    then show ?thesis using c by (auto split: option.splits)
  next
    case 2
    then show ?thesis using Cons.IH[OF rest] by auto
  qed
qed

text \<open>Merging keeps \<open>start \<le> end\<close>. \<open>align\<close> returns a result unless the recognition segment
  chosen for some merged segment has a log-probability below \<open>- exp_max_arg\<close>, where
  \<^verbatim>\<open>math.exp\<close> overflows.\<close>

lemma merge_from_valid:
  assumes "a_start cur \<le> a_end cur" and "\<forall>x\<in>set segs. a_start x \<le> a_end x"
  shows "\<forall>x\<in>set (merge_from g cur segs). a_start x \<le> a_end x"
  using assms
proof (induction segs arbitrary: cur)
  case Nil
  then show ?case by simp
next
  case (Cons seg segs)
  have vs: "a_start seg \<le> a_end seg" and vr: "\<forall>x\<in>set segs. a_start x \<le> a_end x"
    using Cons.prems(2) by simp_all
  show ?case
  proof (cases "merge_test g cur seg")
    case True
    then have "a_end cur \<le> a_start seg" by (simp add: merge_test_def)
    with Cons.prems(1) vs have v': "a_start (absorb cur seg) \<le> a_end (absorb cur seg)" by simp
    have "\<forall>x\<in>set (merge_from g (absorb cur seg) segs). a_start x \<le> a_end x"
      by (rule Cons.IH[OF v' vr])
    then show ?thesis using True by simp
  next
    case False
    then show ?thesis using Cons.IH[OF vs vr] Cons.prems(1) by simp
  qed
qed

lemma merge_blocks_gap_valid:
  assumes "\<forall>x\<in>set segs. a_start x \<le> a_end x"
  shows "\<forall>x\<in>set (merge_blocks_gap segs g). a_start x \<le> a_end x"
proof (cases "sort_key a_start segs")
  case Nil
  then show ?thesis by (simp add: merge_blocks_gap_eq)
next
  case (Cons s rest)
  have "set (s # rest) = set segs" using Cons set_sort[of a_start segs] by simp
  then have "a_start s \<le> a_end s" and "\<forall>x\<in>set rest. a_start x \<le> a_end x"
    using assms by auto
  then have "\<forall>x\<in>set (merge_from g s rest). a_start x \<le> a_end x"
    by (rule merge_from_valid)
  then show ?thesis unfolding merge_blocks_gap_eq Cons by simp
qed

lemma attach_loop_returns:
  assumes "\<forall>s\<in>set asr. - exp_max_arg \<le> avg_logprob s"
  shows "\<exists>out. attach_loop asr merged = Inr out"
proof (induction merged)
  case Nil
  then show ?case by simp
next
  case (Cons m merged)
  then obtain rest where rest: "attach_loop asr merged = Inr rest" by blast
  have "\<exists>c. (case best_diar_for_asr (a_start m) (a_end m) asr of
           Some best \<Rightarrow> confidence_from_whisper best | None \<Rightarrow> Inr (1 / 2)) = Inr c"
  proof (cases "best_diar_for_asr (a_start m) (a_end m) asr")
    case None
    show ?thesis unfolding None by (rule exI[of _ "1 / 2"]) simp
  next
    case (Some b)
    from best_loop_first_max[of asr "a_start m" "a_end m" 0 None] Some
    have "b \<in> set asr" unfolding best_diar_for_asr_def by auto
    then show ?thesis using Some assms confidence_from_whisper_returns by simp
  qed
  then obtain c where "(case best_diar_for_asr (a_start m) (a_end m) asr of
           Some best \<Rightarrow> confidence_from_whisper best | None \<Rightarrow> Inr (1 / 2)) = Inr c" by blast
  then show ?case using rest by simp
qed

lemma align_returns:
  assumes "extract_asr_segments asr_res = Inr asr"
    and "\<forall>s\<in>set asr. - exp_max_arg \<le> avg_logprob s"
  shows "\<exists>out. align asr_res diar = Inr out"
  using attach_loop_returns[OF assms(2)] assms(1) by (simp add: align_def Let_def)

text \<open>
  Claim C5. Let \<open>asr\<close> be the list of normalised recognition segments, and write the temporal
  overlap of a recognition segment \<open>s\<close> with the span of an output segment \<open>seg\<close> as
  \<open>max 0 (min (end seg) (end s) - max (start seg) (start s))\<close>. For every segment of the
  list that \<open>align\<close> returns: its confidence is \<open>0.5\<close> when no recognition segment has a
  positive overlap with its span; otherwise it is
  \<open>clamp(sigmoid(avg_logprob) * (1 - no_speech_prob), 0, 1)\<close> for the recognition segment of
  maximal overlap, the first one in list order among equals. In both cases the confidence
  lies in \<open>[0, 1]\<close>, and the segment satisfies \<open>start \<le> end\<close> when the diarization intervals do
  (the invariant of the data model).
\<close>

theorem aligned_confidence_and_span:
  assumes ret: "align asr_res diar = Inr out"
    and mem: "seg \<in> set out"
    and asr: "extract_asr_segments asr_res = Inr asr"
  shows "((\<forall>s\<in>set asr. max 0 (min (a_end seg) (seg_end s) - max (a_start seg) (seg_start s)) \<le> 0)
            \<longrightarrow> confidence seg = 1 / 2)
     \<and> ((\<exists>s\<in>set asr. 0 < max 0 (min (a_end seg) (seg_end s) - max (a_start seg) (seg_start s)))
            \<longrightarrow> (\<exists>pre best post. asr = pre @ best # post
                 \<and> (\<forall>s\<in>set pre.
                       max 0 (min (a_end seg) (seg_end s) - max (a_start seg) (seg_start s))
                       < max 0 (min (a_end seg) (seg_end best)
                                - max (a_start seg) (seg_start best)))
                 \<and> (\<forall>s\<in>set post.
                       max 0 (min (a_end seg) (seg_end s) - max (a_start seg) (seg_start s))
                       \<le> max 0 (min (a_end seg) (seg_end best)
                                - max (a_start seg) (seg_start best)))
                 \<and> confidence seg
                     = max 0 (min 1 (1 / (1 + exp (- avg_logprob best))
                                      * (1 - no_speech_prob best)))))
     \<and> 0 \<le> confidence seg \<and> confidence seg \<le> 1
     \<and> ((\<forall>d\<in>set diar. d_start d \<le> d_end d) \<longrightarrow> a_start seg \<le> a_end seg)"
proof -
  let ?raw = "align_words_to_diarization (to_word_segments asr) diar"
  let ?ov = "\<lambda>s. overlap (a_start seg) (a_end seg) (seg_start s) (seg_end s)"
  have att: "attach_loop asr (merge_blocks ?raw) = Inr out"
  proof (cases "asr = [] \<or> diar = []")
    case True
    then have "out = []" using ret asr by (auto simp: align_def Let_def)
    with mem show ?thesis by simp
  next
    case False
    then show ?thesis using ret asr by (auto simp: align_def Let_def)
  qed
  from attach_loop_member[OF att mem] obtain m where m: "m \<in> set (merge_blocks ?raw)"
    and st: "a_start seg = a_start m" and en: "a_end seg = a_end m"
    and cf: "case best_diar_for_asr (a_start m) (a_end m) asr of
            None \<Rightarrow> confidence seg = 1 / 2
          | Some b \<Rightarrow> confidence_from_whisper b = Inr (confidence seg)"
    by blast
  have cf': "case best_loop (a_start seg) (a_end seg) None 0 asr of
            None \<Rightarrow> confidence seg = 1 / 2
          | Some b \<Rightarrow> confidence_from_whisper b = Inr (confidence seg)"
    using cf unfolding best_diar_for_asr_def st en .
  from best_loop_first_max[of asr "a_start seg" "a_end seg" 0 None]
  have main: "((\<forall>s\<in>set asr. ?ov s \<le> 0) \<longrightarrow> confidence seg = 1 / 2)
     \<and> ((\<exists>s\<in>set asr. 0 < ?ov s)
            \<longrightarrow> (\<exists>pre best post. asr = pre @ best # post
                 \<and> (\<forall>s\<in>set pre. ?ov s < ?ov best)
                 \<and> (\<forall>s\<in>set post. ?ov s \<le> ?ov best)
                 \<and> confidence seg
                     = max 0 (min 1 (1 / (1 + exp (- avg_logprob best))
                                      * (1 - no_speech_prob best)))))
     \<and> 0 \<le> confidence seg \<and> confidence seg \<le> 1"
  proof (elim disjE exE conjE)
    assume none: "\<forall>d\<in>set asr. ?ov d \<le> 0"
      "best_loop (a_start seg) (a_end seg) None 0 asr = None"
    from cf' none(2) have c: "confidence seg = 1 / 2" by simp
    have "\<not> (\<exists>s\<in>set asr. 0 < ?ov s)" using none(1) by (auto simp: not_less)
    with c show ?thesis by simp
  next
    fix pre b post
    assume some: "asr = pre @ b # post"
        "best_loop (a_start seg) (a_end seg) None 0 asr = Some b" "0 < ?ov b"
        "\<forall>d\<in>set pre. ?ov d < ?ov b" "\<forall>d\<in>set post. ?ov d \<le> ?ov b"
    from cf' some(2) have w: "confidence_from_whisper b = Inr (confidence seg)" by simp
    note v = confidence_from_whisper_value[OF w]
    have "b \<in> set asr" using some(1) by simp
    with some(3) have no: "\<not> (\<forall>s\<in>set asr. ?ov s \<le> 0)" by (auto simp: not_le)
    have "\<exists>pre best post. asr = pre @ best # post
                 \<and> (\<forall>s\<in>set pre. ?ov s < ?ov best)
                 \<and> (\<forall>s\<in>set post. ?ov s \<le> ?ov best)
                 \<and> confidence seg
                     = max 0 (min 1 (1 / (1 + exp (- avg_logprob best))
                                      * (1 - no_speech_prob best)))"
      using some(1,4,5) v(1) by blast
    with no v(2,3) show ?thesis by blast
  qed
  have span: "a_start seg \<le> a_end seg" if valid: "\<forall>d\<in>set diar. d_start d \<le> d_end d"
  proof -
    have "\<forall>x\<in>set ?raw. a_start x \<le> a_end x"
      using raw_segment_valid[OF _ valid] by blast
    then have "\<forall>x\<in>set (merge_blocks ?raw). a_start x \<le> a_end x"
      unfolding merge_blocks_def by (rule merge_blocks_gap_valid)
    with m st en show ?thesis by simp
  qed
  from main[unfolded overlap_def] span show ?thesis by blast
qed

text \<open>
  Four recognition segments: "hello" on \<open>[0, 1]\<close> (log-probability 0, no-speech
  probability 0.2), "there" on \<open>[1, 2]\<close> (0 and 0.6), "bye" on \<open>[10, 11]\<close> (0 and 0.1) and
  "x" on the empty span \<open>[20, 20]\<close>. Three diarization intervals: \<open>[0, 2]\<close> and \<open>[19, 21]\<close> of
  S0, \<open>[10, 11]\<close> of S1. The output segment \<open>[0, 2]\<close> overlaps "hello" and "there" by one
  second each and the two others not at all: its confidence is that of "hello", the first
  of the two, \<open>0.5 * 0.8 = 0.4\<close>. The output segment \<open>[19, 21]\<close> has no positive overlap with
  any recognition segment: its confidence is \<open>0.5\<close>.
\<close>

theorem aligned_confidence_and_span_witness:
  "align
     (AsrList
        [ItemDict \<lparr>ws_start = Some (Number 0), ws_end = Some (Number 1),
                   ws_text = Some (Str ''hello''),
                   ws_avg_logprob = Some 0, ws_no_speech_prob = Some (1 / 5)\<rparr>,
         ItemDict \<lparr>ws_start = Some (Number 1), ws_end = Some (Number 2),
                   ws_text = Some (Str ''there''),
                   ws_avg_logprob = Some 0, ws_no_speech_prob = Some (3 / 5)\<rparr>,
         ItemDict \<lparr>ws_start = Some (Number 10), ws_end = Some (Number 11),
                   ws_text = Some (Str ''bye''),
                   ws_avg_logprob = Some 0, ws_no_speech_prob = Some (1 / 10)\<rparr>,
         ItemDict \<lparr>ws_start = Some (Number 20), ws_end = Some (Number 20),
                   ws_text = Some (Str ''x''),
                   ws_avg_logprob = Some 0, ws_no_speech_prob = Some 0\<rparr>])
     [\<lparr>d_start = 0, d_end = 2, d_speaker = ''S0''\<rparr>,
      \<lparr>d_start = 10, d_end = 11, d_speaker = ''S1''\<rparr>,
      \<lparr>d_start = 19, d_end = 21, d_speaker = ''S0''\<rparr>]
   = Inr [\<lparr>a_start = 0, a_end = 2, a_speaker = ''S0'', a_text = ''hello there'',
           confidence = 2 / 5, gender = None, gender_confidence = None\<rparr>,
          \<lparr>a_start = 10, a_end = 11, a_speaker = ''S1'', a_text = ''bye'',
           confidence = 9 / 20, gender = None, gender_confidence = None\<rparr>,
          \<lparr>a_start = 19, a_end = 21, a_speaker = ''S0'', a_text = ''x'',
           confidence = 1 / 2, gender = None, gender_confidence = None\<rparr>]
   \<and> confidence
         \<lparr>a_start = 0, a_end = 2, a_speaker = ''S0'', a_text = ''hello there'',
           confidence = 2 / 5, gender = None, gender_confidence = None\<rparr>
       = max 0 (min 1 (1 / (1 + exp (- 0)) * (1 - 1 / 5)))
   \<and> confidence
         \<lparr>a_start = 19, a_end = 21, a_speaker = ''S0'', a_text = ''x'',
           confidence = 1 / 2, gender = None, gender_confidence = None\<rparr>
       = 1 / 2
   \<and> 0 \<le> confidence
         \<lparr>a_start = 0, a_end = 2, a_speaker = ''S0'', a_text = ''hello there'',
           confidence = 2 / 5, gender = None, gender_confidence = None\<rparr>
   \<and> confidence
         \<lparr>a_start = 0, a_end = 2, a_speaker = ''S0'', a_text = ''hello there'',
           confidence = 2 / 5, gender = None, gender_confidence = None\<rparr> \<le> 1
   \<and> a_start
         \<lparr>a_start = 0, a_end = 2, a_speaker = ''S0'', a_text = ''hello there'',
           confidence = 2 / 5, gender = None, gender_confidence = None\<rparr>
       \<le> a_end
         \<lparr>a_start = 0, a_end = 2, a_speaker = ''S0'', a_text = ''hello there'',
           confidence = 2 / 5, gender = None, gender_confidence = None\<rparr>"
proof -
  let ?res = "AsrList
        [ItemDict \<lparr>ws_start = Some (Number 0), ws_end = Some (Number 1),
                   ws_text = Some (Str ''hello''),
                   ws_avg_logprob = Some 0, ws_no_speech_prob = Some (1 / 5)\<rparr>,
         ItemDict \<lparr>ws_start = Some (Number 1), ws_end = Some (Number 2),
                   ws_text = Some (Str ''there''),
                   ws_avg_logprob = Some 0, ws_no_speech_prob = Some (3 / 5)\<rparr>,
         ItemDict \<lparr>ws_start = Some (Number 10), ws_end = Some (Number 11),
                   ws_text = Some (Str ''bye''),
                   ws_avg_logprob = Some 0, ws_no_speech_prob = Some (1 / 10)\<rparr>,
         ItemDict \<lparr>ws_start = Some (Number 20), ws_end = Some (Number 20),
                   ws_text = Some (Str ''x''),
                   ws_avg_logprob = Some 0, ws_no_speech_prob = Some 0\<rparr>]"
  let ?diar = "[\<lparr>d_start = 0, d_end = 2, d_speaker = ''S0''\<rparr>,
      \<lparr>d_start = 10, d_end = 11, d_speaker = ''S1''\<rparr>,
      \<lparr>d_start = 19, d_end = 21, d_speaker = ''S0''\<rparr>]"
  let ?s1 = "\<lparr>seg_start = 0, seg_end = 1, seg_text = ''hello'', avg_logprob = 0,
             no_speech_prob = 1 / 5\<rparr>"
  let ?s2 = "\<lparr>seg_start = 1, seg_end = 2, seg_text = ''there'', avg_logprob = 0,
             no_speech_prob = 3 / 5\<rparr>"
  let ?s3 = "\<lparr>seg_start = 10, seg_end = 11, seg_text = ''bye'', avg_logprob = 0,
             no_speech_prob = 1 / 10\<rparr>"
  let ?s4 = "\<lparr>seg_start = 20, seg_end = 20, seg_text = ''x'', avg_logprob = 0,
             no_speech_prob = 0\<rparr>"
  let ?asr = "[?s1, ?s2, ?s3, ?s4]"
  let ?r1 = "\<lparr>a_start = 0, a_end = 2, a_speaker = ''S0'', a_text = ''hello there''\<rparr>"
  let ?r2 = "\<lparr>a_start = 10, a_end = 11, a_speaker = ''S1'', a_text = ''bye''\<rparr>"
  let ?r3 = "\<lparr>a_start = 19, a_end = 21, a_speaker = ''S0'', a_text = ''x''\<rparr>"
  let ?A = "\<lparr>a_start = 0, a_end = 2, a_speaker = ''S0'', a_text = ''hello there'',
           confidence = 2 / 5, gender = None, gender_confidence = None\<rparr>"
  let ?B = "\<lparr>a_start = 10, a_end = 11, a_speaker = ''S1'', a_text = ''bye'',
           confidence = 9 / 20, gender = None, gender_confidence = None\<rparr>"
  let ?C = "\<lparr>a_start = 19, a_end = 21, a_speaker = ''S0'', a_text = ''x'',
           confidence = 1 / 2, gender = None, gender_confidence = None\<rparr>"
  let ?ovA = "\<lambda>s. max 0 (min (a_end ?A) (seg_end s) - max (a_start ?A) (seg_start s))"
  let ?ovC = "\<lambda>s. max 0 (min (a_end ?C) (seg_end s) - max (a_start ?C) (seg_start s))"
  let ?f = "\<lambda>b. max 0 (min 1 (1 / (1 + exp (- avg_logprob b)) * (1 - no_speech_prob b)))"
  have ex: "extract_asr_segments ?res = Inr ?asr"
    by (simp add: extract_asr_segments_def select_segments_def py_float_def norm_text_def
        py_strip_def py_isspace_def)
  have ws: "to_word_segments ?asr =
      [\<lparr>w_start = 0, w_end = 1, word = ''hello''\<rparr>,
       \<lparr>w_start = 1, w_end = 2, word = ''there''\<rparr>,
       \<lparr>w_start = 10, w_end = 11, word = ''bye''\<rparr>,
       \<lparr>w_start = 20, w_end = 20, word = ''x''\<rparr>]"
    by (simp add: py_isspace_def word_slices_def Let_def enumerate_eq_zip)
  have r: "round3 0 = 0" "round3 2 = 2" "round3 10 = 10" "round3 11 = 11" "round3 19 = 19"
      "round3 21 = 21"
    by (simp_all add: round3_def Let_def)
  have raw: "align_words_to_diarization (to_word_segments ?asr) ?diar = [?r1, ?r2, ?r3]"
    unfolding ws
    by (simp add: align_words_to_diarization_def word_in_def r py_strip_def py_isspace_def)
  have mg: "merge_blocks [?r1, ?r2, ?r3] = [?r1, ?r2, ?r3]"
    by (simp add: merge_blocks_def merge_blocks_gap_def)
  have best: "best_diar_for_asr 0 2 ?asr = Some ?s1" "best_diar_for_asr 10 11 ?asr = Some ?s3"
      "best_diar_for_asr 19 21 ?asr = None"
    by (simp_all add: best_diar_for_asr_def overlap_def Let_def)
  have conf: "confidence_from_whisper ?s1 = Inr (2 / 5)"
      "confidence_from_whisper ?s3 = Inr (9 / 20)"
    by (simp_all add: confidence_from_whisper_def math_exp_def exp_max_arg_def Let_def)
  have ev: "align ?res ?diar = Inr [?A, ?B, ?C]"
    unfolding align_def Let_def ex sum.case raw mg by (simp add: best conf)
  have memA: "?A \<in> set [?A, ?B, ?C]" and memC: "?C \<in> set [?A, ?B, ?C]" by simp_all
  have valid: "\<forall>d\<in>set ?diar. d_start d \<le> d_end d" by simp
  note instA = aligned_confidence_and_span [OF ev memA ex]
  note instC = aligned_confidence_and_span [OF ev memC ex]
  from instA valid
  have bounds: "0 \<le> confidence ?A" "confidence ?A \<le> 1" "a_start ?A \<le> a_end ?A"
    by blast+
  have noneC: "\<forall>s\<in>set ?asr. ?ovC s \<le> 0" by simp
  from instC noneC have confC: "confidence ?C = 1 / 2" by blast
  have posA: "\<exists>s\<in>set ?asr. 0 < ?ovA s" by simp
  from instA posA
  have "\<exists>pre best post. ?asr = pre @ best # post
      \<and> (\<forall>s\<in>set pre. ?ovA s < ?ovA best) \<and> (\<forall>s\<in>set post. ?ovA s \<le> ?ovA best)
      \<and> confidence ?A = ?f best"
    by blast
  then obtain pre best post where split: "?asr = pre @ best # post"
    and before: "\<forall>s\<in>set pre. ?ovA s < ?ovA best"
    and cA: "confidence ?A = ?f best"
    by blast
  have le1: "\<forall>s\<in>set ?asr. ?ovA s \<le> 1" by simp
  have "best \<in> set ?asr" unfolding split by simp
  with le1 have best1: "?ovA best \<le> 1" by blast
  have ov1: "?ovA ?s1 = 1" by simp
  have "pre = []"
  proof (rule ccontr)
    assume ne: "pre \<noteq> []"
    then have "hd pre = ?s1" using split by (cases pre) simp_all
    with ne have "?s1 \<in> set pre" by (metis hd_in_set)
    with before have "?ovA ?s1 < ?ovA best" by blast
    with best1 ov1 show False by linarith
  qed
  with split have "best = ?s1" by simp
  with cA have confA: "confidence ?A = max 0 (min 1 (1 / (1 + exp (- 0)) * (1 - 1 / 5)))"
    by simp
  from ev confA confC bounds show ?thesis by blast
qed

subsection \<open>Roles of the conversation\<close>

text \<open>The \<open>time_map\<close> of \<open>build_conversation\<close> holds, for every speaker of the segments and
  for no other key, the total speaking time of the specification; sorting the segments does
  not change it.\<close>

lemma spec_speaking_time_Cons:
  "spec_speaking_time (seg # segs) k =
     (if a_speaker seg = k then a_end seg - a_start seg else 0) + spec_speaking_time segs k"
  by (simp add: spec_speaking_time_def)

lemma spec_speaking_time_insort:
  "spec_speaking_time (insort_key f seg segs) k = spec_speaking_time (seg # segs) k"
  by (induction segs) (simp_all add: spec_speaking_time_Cons)

lemma spec_speaking_time_sort:
  "spec_speaking_time (sort_key f segs) k = spec_speaking_time segs k"
  by (induction segs) (simp_all add: spec_speaking_time_insort spec_speaking_time_Cons)

lemma time_map_loop_sums:
  assumes "distinct (map fst tm)"
  shows "distinct (map fst (time_map_loop tm segs))
     \<and> fst ` set (time_map_loop tm segs) = fst ` set tm \<union> a_speaker ` set segs
     \<and> (\<forall>k\<in>fst ` set tm \<union> a_speaker ` set segs.
           map_of (time_map_loop tm segs) k
             = Some ((case map_of tm k of None \<Rightarrow> 0 | Some t \<Rightarrow> t)
                       + spec_speaking_time segs k))"
  using assms
proof (induction segs arbitrary: tm)
  case Nil
  have "map_of tm k = Some ((case map_of tm k of None \<Rightarrow> 0 | Some t \<Rightarrow> t)
      + spec_speaking_time [] k)" if "k \<in> fst ` set tm" for k
  proof -
    from that obtain v where "(k, v) \<in> set tm" by auto
    then obtain x where "map_of tm k = Some x" using weak_map_of_SomeI by metis
    then show ?thesis by (simp add: spec_speaking_time_def)
  qed
  with Nil show ?case by simp
next
  case (Cons seg segs)
  let ?k = "a_speaker seg"
  let ?v = "(case map_of tm ?k of None \<Rightarrow> 0 | Some t \<Rightarrow> t) + (a_end seg - a_start seg)"
  let ?tm = "AList.update ?k ?v tm"
  have d: "distinct (map fst ?tm)" using Cons.prems by (rule AList.distinct_update)
  have keys: "fst ` set ?tm = {?k} \<union> fst ` set tm" by (rule AList.dom_update)
  have look: "map_of ?tm = (map_of tm)(?k \<mapsto> ?v)" by (rule AList.update_conv')
  note IH = Cons.IH[OF d]
  have step: "time_map_loop tm (seg # segs) = time_map_loop ?tm segs" by (simp add: Let_def)
  have k1: "fst ` set (time_map_loop ?tm segs) = fst ` set tm \<union> a_speaker ` set (seg # segs)"
    using IH keys by auto
  have k2: "map_of (time_map_loop ?tm segs) k
             = Some ((case map_of tm k of None \<Rightarrow> 0 | Some t \<Rightarrow> t)
                       + spec_speaking_time (seg # segs) k)"
    if "k \<in> fst ` set tm \<union> a_speaker ` set (seg # segs)" for k
  proof -
    have "k \<in> fst ` set ?tm \<union> a_speaker ` set segs" using that keys by auto
    with IH have "map_of (time_map_loop ?tm segs) k
        = Some ((case map_of ?tm k of None \<Rightarrow> 0 | Some t \<Rightarrow> t) + spec_speaking_time segs k)"
      by blast
    then show ?thesis
      by (cases "k = ?k") (simp_all add: look spec_speaking_time_Cons)
  qed
  show ?case unfolding step
  proof (intro conjI ballI)
    show "distinct (map fst (time_map_loop ?tm segs))" using IH by (rule conjunct1)
    show "fst ` set (time_map_loop ?tm segs) = fst ` set tm \<union> a_speaker ` set (seg # segs)"
      by (rule k1)
    show "map_of (time_map_loop ?tm segs) k
             = Some ((case map_of tm k of None \<Rightarrow> 0 | Some t \<Rightarrow> t)
                       + spec_speaking_time (seg # segs) k)"
      if "k \<in> fst ` set tm \<union> a_speaker ` set (seg # segs)" for k
      by (rule k2[OF that])
  qed
qed

lemma time_map_entries:
  "distinct (map fst (time_map_loop [] segs))
   \<and> set (time_map_loop [] segs)
       = (\<lambda>k. (k, spec_speaking_time segs k)) ` (a_speaker ` set segs)"
proof -
  let ?tm = "time_map_loop [] segs"
  have "distinct (map fst ([] :: (string \<times> real) list))" by simp
  note r = time_map_loop_sums[OF this, of segs]
  from r have d: "distinct (map fst ?tm)" by (rule conjunct1)
  from r have keys: "fst ` set ?tm = a_speaker ` set segs" by simp
  have look: "map_of ?tm k = Some (spec_speaking_time segs k)" if "k \<in> a_speaker ` set segs" for k
  proof -
    from r that have "map_of ?tm k
        = Some ((case map_of [] k of None \<Rightarrow> 0 | Some t \<Rightarrow> t) + spec_speaking_time segs k)"
      by blast
    then show ?thesis by simp
  qed
  have "x \<in> set ?tm \<longleftrightarrow> x \<in> (\<lambda>k. (k, spec_speaking_time segs k)) ` (a_speaker ` set segs)" for x
  proof
    assume x: "x \<in> set ?tm"
    then have "fst x \<in> a_speaker ` set segs" using keys by (metis imageI)
    moreover from x d have "map_of ?tm (fst x) = Some (snd x)" by simp
    ultimately have "snd x = spec_speaking_time segs (fst x)" using look[of "fst x"] by simp
    then have "x = (fst x, spec_speaking_time segs (fst x))" by (simp add: prod_eq_iff)
    with \<open>fst x \<in> a_speaker ` set segs\<close> show "x \<in> (\<lambda>k. (k, spec_speaking_time segs k)) ` (a_speaker ` set segs)"
      by (rule image_eqI[rotated, where x = "fst x"])
  next
    assume "x \<in> (\<lambda>k. (k, spec_speaking_time segs k)) ` (a_speaker ` set segs)"
    then obtain k where k: "k \<in> a_speaker ` set segs" and x: "x = (k, spec_speaking_time segs k)"
      by blast
    from look[OF k] have "map_of ?tm k = Some (spec_speaking_time segs k)" .
    then show "x \<in> set ?tm" unfolding x by (rule map_of_SomeD)
  qed
  with d show ?thesis by blast
qed

text \<open>The speakers in descending order of speaking time, and the roles of the turns that
  the timeline loop builds.\<close>

lemma speaker_order_props:
  assumes "distinct (map fst tm)"
  shows "set (speaker_order_of tm) = set tm"
    and "length (speaker_order_of tm) = length tm"
    and "distinct (map fst (speaker_order_of tm))"
    and "\<And>i j. i \<le> j \<Longrightarrow> j < length tm \<Longrightarrow>
           snd (speaker_order_of tm ! j) \<le> snd (speaker_order_of tm ! i)"
proof -
  let ?o = "speaker_order_of tm"
  show s: "set ?o = set tm" by (simp add: speaker_order_of_def)
  show l: "length ?o = length tm" by (simp add: speaker_order_of_def)
  from assms have "distinct tm" and "inj_on fst (set tm)" by (simp_all add: distinct_map)
  then have "distinct ?o" and "inj_on fst (set ?o)" by (simp_all add: speaker_order_of_def)
  then show "distinct (map fst ?o)" by (simp add: distinct_map)
  have srt: "sorted (map (\<lambda>x. - snd x) ?o)"
    unfolding speaker_order_of_def by (rule sorted_sort_key)
  show "snd (?o ! j) \<le> snd (?o ! i)" if "i \<le> j" "j < length tm" for i j
  proof -
    have "map (\<lambda>x. - snd x) ?o ! i \<le> map (\<lambda>x. - snd x) ?o ! j"
      using srt that l by (simp add: sorted_iff_nth_mono)
    then show ?thesis using that l by simp
  qed
qed

lemma conv_loop_roles:
  assumes "conv_loop roles conv current segs = (conv', current')"
    and "\<forall>t\<in>set conv \<union> set_option current. t_speaker t = role_get roles (t_speaker_raw t)"
  shows "(\<forall>t\<in>set conv' \<union> set_option current'. t_speaker t = role_get roles (t_speaker_raw t))
     \<and> t_speaker_raw ` (set conv' \<union> set_option current')
         = t_speaker_raw ` (set conv \<union> set_option current) \<union> a_speaker ` set segs"
  using assms
proof (induction segs arbitrary: conv current)
  case Nil
  then show ?case by auto
next
  case (Cons seg segs)
  let ?spk = "a_speaker seg"
  let ?fresh = "\<lparr>t_start = a_start seg, t_end = a_end seg, t_speaker = role_get roles ?spk,
                   t_speaker_raw = ?spk, t_text = a_text seg\<rparr>"
  have unfold: "conv_loop roles conv (Some cur) (seg # segs)
      = (if t_speaker_raw cur = ?spk \<and> a_start seg - t_end cur \<le> 3 / 4
         then conv_loop roles conv
                (Some (cur\<lparr>t_end := a_end seg, t_text := t_text cur @ '' '' @ a_text seg\<rparr>)) segs
         else conv_loop roles (conv @ [cur]) (Some ?fresh) segs)" for cur
    by (simp add: Let_def role_get_def)
  show ?case
  proof (cases current)
    case None
    then have step: "conv_loop roles conv (Some ?fresh) segs = (conv', current')"
      using Cons.prems(1) by (simp add: Let_def role_get_def)
    have inv: "\<forall>t\<in>set conv \<union> set_option (Some ?fresh).
        t_speaker t = role_get roles (t_speaker_raw t)"
      using Cons.prems(2) by simp
    from Cons.IH[OF step inv] show ?thesis using None by auto
  next
    case (Some cur)
    show ?thesis
    proof (cases "t_speaker_raw cur = ?spk \<and> a_start seg - t_end cur \<le> 3 / 4")
      case True
      let ?cur = "cur\<lparr>t_end := a_end seg, t_text := t_text cur @ '' '' @ a_text seg\<rparr>"
      have step: "conv_loop roles conv (Some ?cur) segs = (conv', current')"
        using Cons.prems(1) unfolding Some unfold if_P[OF True] .
      have inv: "\<forall>t\<in>set conv \<union> set_option (Some ?cur).
          t_speaker t = role_get roles (t_speaker_raw t)"
        using Cons.prems(2) Some by simp
      from Cons.IH[OF step inv] show ?thesis using Some True by auto
    next
      case False
      have step: "conv_loop roles (conv @ [cur]) (Some ?fresh) segs = (conv', current')"
        using Cons.prems(1) unfolding Some unfold if_not_P[OF False] .
      have inv: "\<forall>t\<in>set (conv @ [cur]) \<union> set_option (Some ?fresh).
          t_speaker t = role_get roles (t_speaker_raw t)"
        using Cons.prems(2) Some by simp
      from Cons.IH[OF step inv] show ?thesis using Some by auto
    qed
  qed
qed

lemma conversation_of_roles:
  assumes "segs \<noteq> []"
  shows "(\<forall>t\<in>set (conversation_of segs).
            t_speaker t = role_get (roles_of (speaker_order_of (time_map_loop [] (sort_key a_start segs))))
                            (t_speaker_raw t))
     \<and> t_speaker_raw ` set (conversation_of segs) = a_speaker ` set segs"
proof -
  let ?segments = "sort_key a_start segs"
  let ?roles = "roles_of (speaker_order_of (time_map_loop [] ?segments))"
  obtain conv cur where loop: "conv_loop ?roles [] None ?segments = (conv, cur)"
    by (cases "conv_loop ?roles [] None ?segments") auto
  have out: "set (conversation_of segs) = set conv \<union> set_option cur"
    using assms loop by (cases cur) (simp_all add: conversation_of_def Let_def)
  have "(\<forall>t\<in>set conv \<union> set_option cur. t_speaker t = role_get ?roles (t_speaker_raw t))
     \<and> t_speaker_raw ` (set conv \<union> set_option cur)
         = t_speaker_raw ` (set ([] :: turn list) \<union> set_option None)
             \<union> a_speaker ` set ?segments"
    by (rule conv_loop_roles[OF loop]) simp
  then show ?thesis unfolding out by simp
qed

lemma roles_ranked:
  assumes ne: "segs \<noteq> []"
    and S: "S = a_speaker ` set segs"
    and roles: "roles = roles_of (speaker_order_of (time_map_loop [] (sort_key a_start segs)))"
  shows "card S = 1 \<longrightarrow> (\<forall>k\<in>S. role_get roles k = ''CUSTOMER'')"
    and "2 \<le> card S \<longrightarrow>
      (\<exists>p q. p \<in> S \<and> q \<in> S \<and> p \<noteq> q
         \<and> (\<forall>k\<in>S. spec_speaking_time segs k \<le> spec_speaking_time segs p)
         \<and> (\<forall>k\<in>S. k \<noteq> p \<longrightarrow> spec_speaking_time segs k \<le> spec_speaking_time segs q)
         \<and> (\<forall>k. role_get roles k
                = (if k = p then ''CUSTOMER'' else if k = q then ''AGENT'' else k)))"
proof -
  let ?T = "spec_speaking_time segs"
  let ?tm = "time_map_loop [] (sort_key a_start segs)"
  let ?o = "speaker_order_of ?tm"
  have d: "distinct (map fst ?tm)" using time_map_entries[of "sort_key a_start segs"] by simp
  have tm: "set ?tm = (\<lambda>k. (k, ?T k)) ` S"
    using time_map_entries[of "sort_key a_start segs"]
    by (simp add: S spec_speaking_time_sort)
  note o = speaker_order_props[OF d]
  have keys: "set (map fst ?tm) = S" using tm by (auto simp: image_image)
  have len: "length ?o = card S"
    using distinct_card[OF d] keys o(2) by simp
  have entry: "fst (?o ! j) \<in> S \<and> snd (?o ! j) = ?T (fst (?o ! j))" if "j < length ?o" for j
  proof -
    have "?o ! j \<in> set ?tm" using that o(1) nth_mem by blast
    then show ?thesis using tm by auto
  qed
  have index: "\<exists>j<length ?o. ?o ! j = (k, ?T k)" if "k \<in> S" for k
  proof -
    have "(k, ?T k) \<in> set ?o" using that tm o(1) by simp
    then show ?thesis by (simp add: in_set_conv_nth)
  qed
  show "card S = 1 \<longrightarrow> (\<forall>k\<in>S. role_get roles k = ''CUSTOMER'')"
  proof (intro impI ballI)
    fix k assume c: "card S = 1" and k: "k \<in> S"
    then have l: "length ?o = 1" using len by simp
    from index[OF k] l have "?o ! 0 = (k, ?T k)" by auto
    then have "fst (?o ! 0) = k" by simp
    then show "role_get roles k = ''CUSTOMER''"
      using l by (simp add: roles roles_of_def role_get_def)
  qed
  show "2 \<le> card S \<longrightarrow>
      (\<exists>p q. p \<in> S \<and> q \<in> S \<and> p \<noteq> q
         \<and> (\<forall>k\<in>S. ?T k \<le> ?T p)
         \<and> (\<forall>k\<in>S. k \<noteq> p \<longrightarrow> ?T k \<le> ?T q)
         \<and> (\<forall>k. role_get roles k
                = (if k = p then ''CUSTOMER'' else if k = q then ''AGENT'' else k)))"
  proof
    assume c: "2 \<le> card S"
    then have l: "2 \<le> length ?o" using len by simp
    define p where "p = fst (?o ! 0)"
    define q where "q = fst (?o ! 1)"
    have l0: "0 < length ?o" and l1: "1 < length ?o" using l by linarith+
    have e0: "p \<in> S" "snd (?o ! 0) = ?T p" using entry[OF l0] unfolding p_def by blast+
    have e1: "q \<in> S" "snd (?o ! 1) = ?T q" using entry[OF l1] unfolding q_def by blast+
    have pq: "p \<noteq> q"
    proof
      assume "p = q"
      then have "map fst ?o ! 0 = map fst ?o ! 1" using l0 l1 by (simp add: p_def q_def)
      moreover have "0 < length (map fst ?o)" "1 < length (map fst ?o)" using l0 l1 by simp_all
      ultimately have "(0::nat) = 1" using o(3) by (simp only: nth_eq_iff_index_eq)
      then show False by simp
    qed
    have top: "?T k \<le> ?T p" if "k \<in> S" for k
    proof -
      from index[OF that] obtain j where j: "j < length ?o" "?o ! j = (k, ?T k)" by blast
      have "snd (?o ! j) \<le> snd (?o ! 0)" using o(4)[of 0 j] j(1) o(2) by simp
      then show ?thesis using j(2) e0(2) by simp
    qed
    have second: "?T k \<le> ?T q" if "k \<in> S" "k \<noteq> p" for k
    proof -
      from index[OF that(1)] obtain j where j: "j < length ?o" "?o ! j = (k, ?T k)" by blast
      have "j \<noteq> 0"
      proof
        assume "j = 0"
        with j(2) have "fst (?o ! 0) = k" by simp
        with that(2) show False by (simp add: p_def)
      qed
      then have "1 \<le> j" by simp
      then have "snd (?o ! j) \<le> snd (?o ! 1)" using o(4)[of 1 j] j(1) o(2) by simp
      then show ?thesis using j(2) e1(2) by simp
    qed
    have r: "role_get roles k = (if k = p then ''CUSTOMER'' else if k = q then ''AGENT'' else k)"
      for k
      using l pq by (auto simp: roles roles_of_def role_get_def Let_def p_def q_def)
    show "\<exists>p q. p \<in> S \<and> q \<in> S \<and> p \<noteq> q
         \<and> (\<forall>k\<in>S. ?T k \<le> ?T p)
         \<and> (\<forall>k\<in>S. k \<noteq> p \<longrightarrow> ?T k \<le> ?T q)
         \<and> (\<forall>k. role_get roles k
                = (if k = p then ''CUSTOMER'' else if k = q then ''AGENT'' else k))"
    proof -
      have "p \<in> S \<and> q \<in> S \<and> p \<noteq> q
         \<and> (\<forall>k\<in>S. ?T k \<le> ?T p)
         \<and> (\<forall>k\<in>S. k \<noteq> p \<longrightarrow> ?T k \<le> ?T q)
         \<and> (\<forall>k. role_get roles k
                = (if k = p then ''CUSTOMER'' else if k = q then ''AGENT'' else k))"
      proof (intro conjI ballI allI impI)
        show "p \<in> S" by (rule e0(1))
        show "q \<in> S" by (rule e1(1))
        show "p \<noteq> q" by (rule pq)
        show "?T k \<le> ?T p" if "k \<in> S" for k by (rule top[OF that])
        show "?T k \<le> ?T q" if "k \<in> S" "k \<noteq> p" for k by (rule second[OF that])
        show "role_get roles k = (if k = p then ''CUSTOMER'' else if k = q then ''AGENT'' else k)"
          for k by (rule r)
      qed
      then show ?thesis by - (rule exI[of _ p], rule exI[of _ q], assumption)
    qed
  qed
qed

lemma conversation_of_ranked:
  assumes S: "S = a_speaker ` set segs" and T: "T = spec_speaking_time segs"
    and turns: "turns = conversation_of segs"
  shows "t_speaker_raw ` set turns = S"
    and "card S = 1 \<longrightarrow> (\<forall>t\<in>set turns. t_speaker t = ''CUSTOMER'')"
    and "2 \<le> card S \<longrightarrow>
      (\<exists>p q. p \<in> S \<and> q \<in> S \<and> p \<noteq> q
         \<and> (\<forall>k\<in>S. T k \<le> T p)
         \<and> (\<forall>k\<in>S. k \<noteq> p \<longrightarrow> T k \<le> T q)
         \<and> (\<forall>t\<in>set turns. t_speaker t
                = (if t_speaker_raw t = p then ''CUSTOMER''
                   else if t_speaker_raw t = q then ''AGENT'' else t_speaker_raw t)))"
proof -
  let ?roles = "roles_of (speaker_order_of (time_map_loop [] (sort_key a_start segs)))"
  have base: "(\<forall>t\<in>set turns. t_speaker t = role_get ?roles (t_speaker_raw t))
      \<and> t_speaker_raw ` set turns = S"
  proof (cases "segs = []")
    case True
    then show ?thesis by (simp add: turns S conversation_of_def)
  next
    case False
    then show ?thesis unfolding turns S by (rule conversation_of_roles)
  qed
  then have role: "t_speaker t = role_get ?roles (t_speaker_raw t)" and raw: "t_speaker_raw t \<in> S"
    if "t \<in> set turns" for t using that by auto
  show "t_speaker_raw ` set turns = S" using base by simp
  show "card S = 1 \<longrightarrow> (\<forall>t\<in>set turns. t_speaker t = ''CUSTOMER'')"
  proof (intro impI ballI)
    fix t assume c: "card S = 1" and t: "t \<in> set turns"
    then have "segs \<noteq> []" using S by auto
    from roles_ranked(1)[OF this S refl] c raw[OF t]
    have "role_get ?roles (t_speaker_raw t) = ''CUSTOMER''" by blast
    then show "t_speaker t = ''CUSTOMER''" using role[OF t] by simp
  qed
  show "2 \<le> card S \<longrightarrow>
      (\<exists>p q. p \<in> S \<and> q \<in> S \<and> p \<noteq> q
         \<and> (\<forall>k\<in>S. T k \<le> T p)
         \<and> (\<forall>k\<in>S. k \<noteq> p \<longrightarrow> T k \<le> T q)
         \<and> (\<forall>t\<in>set turns. t_speaker t
                = (if t_speaker_raw t = p then ''CUSTOMER''
                   else if t_speaker_raw t = q then ''AGENT'' else t_speaker_raw t)))"
  proof
    assume c: "2 \<le> card S"
    then have "segs \<noteq> []" using S by auto
    from roles_ranked(2)[OF this S refl] c obtain p q where
      pq: "p \<in> S" "q \<in> S" "p \<noteq> q"
      and top: "\<forall>k\<in>S. T k \<le> T p"
      and second: "\<forall>k\<in>S. k \<noteq> p \<longrightarrow> T k \<le> T q"
      and r: "\<forall>k. role_get ?roles k
                = (if k = p then ''CUSTOMER'' else if k = q then ''AGENT'' else k)"
      unfolding T by blast
    have "\<forall>t\<in>set turns. t_speaker t
                = (if t_speaker_raw t = p then ''CUSTOMER''
                   else if t_speaker_raw t = q then ''AGENT'' else t_speaker_raw t)"
      using role r by simp
    with pq top second
    have "p \<in> S \<and> q \<in> S \<and> p \<noteq> q
         \<and> (\<forall>k\<in>S. T k \<le> T p)
         \<and> (\<forall>k\<in>S. k \<noteq> p \<longrightarrow> T k \<le> T q)
         \<and> (\<forall>t\<in>set turns. t_speaker t
                = (if t_speaker_raw t = p then ''CUSTOMER''
                   else if t_speaker_raw t = q then ''AGENT'' else t_speaker_raw t))"
      by (intro conjI)
    then show "\<exists>p q. p \<in> S \<and> q \<in> S \<and> p \<noteq> q
         \<and> (\<forall>k\<in>S. T k \<le> T p)
         \<and> (\<forall>k\<in>S. k \<noteq> p \<longrightarrow> T k \<le> T q)
         \<and> (\<forall>t\<in>set turns. t_speaker t
                = (if t_speaker_raw t = p then ''CUSTOMER''
                   else if t_speaker_raw t = q then ''AGENT'' else t_speaker_raw t))"
      by - (rule exI[of _ p], rule exI[of _ q], assumption)
  qed
qed

text \<open>
  Claim C8. The roles that the specification calls PRIMARY and SECONDARY are the literals
  \<^verbatim>\<open>"CUSTOMER"\<close> and \<^verbatim>\<open>"AGENT"\<close> of the code. Whenever \<open>align\<close> returns the segments
  \<open>segs\<close>, \<open>build_conversation\<close> returns turns whose raw labels are exactly the speakers of
  \<open>segs\<close>, and: with exactly one speaker every turn has the role CUSTOMER; with two or more
  speakers there are a speaker \<open>p\<close> of maximal total speaking time and a speaker \<open>q\<close> of
  maximal total speaking time among the others such that the turns of \<open>p\<close> have the role
  CUSTOMER, the turns of \<open>q\<close> the role AGENT, and every other turn has its raw speaker
  label as role. In particular, for three speakers with the totals 40, 25 and 10 seconds the
  first is CUSTOMER, the second AGENT, and the turns of the third carry its raw label.
\<close>

theorem conversation_roles_by_speaking_time:
  assumes ret: "align asr_res diar = Inr segs"
    and S: "S = a_speaker ` set segs"
    and T: "T = spec_speaking_time segs"
  shows "\<exists>turns. build_conversation asr_res diar = Inr turns
     \<and> t_speaker_raw ` set turns = S
     \<and> (card S = 1 \<longrightarrow> (\<forall>t\<in>set turns. t_speaker t = ''CUSTOMER''))
     \<and> (2 \<le> card S \<longrightarrow>
          (\<exists>p q. p \<in> S \<and> q \<in> S \<and> p \<noteq> q
             \<and> (\<forall>k\<in>S. T k \<le> T p)
             \<and> (\<forall>k\<in>S. k \<noteq> p \<longrightarrow> T k \<le> T q)
             \<and> (\<forall>t\<in>set turns. t_speaker t
                    = (if t_speaker_raw t = p then ''CUSTOMER''
                       else if t_speaker_raw t = q then ''AGENT'' else t_speaker_raw t))))
     \<and> (\<forall>a b c. S = {a, b, c} \<and> T a = 40 \<and> T b = 25 \<and> T c = 10 \<longrightarrow>
          (\<forall>t\<in>set turns. t_speaker t
              = (if t_speaker_raw t = a then ''CUSTOMER''
                 else if t_speaker_raw t = b then ''AGENT'' else t_speaker_raw t)))"
proof -
  define turns where "turns = conversation_of segs"
  have bc: "build_conversation asr_res diar = Inr turns"
    using ret by (simp add: build_conversation_def turns_def)
  note rk = conversation_of_ranked[OF S T turns_def]
  have scen: "\<forall>t\<in>set turns. t_speaker t
              = (if t_speaker_raw t = a then ''CUSTOMER''
                 else if t_speaker_raw t = b then ''AGENT'' else t_speaker_raw t)"
    if h: "S = {a, b, c} \<and> T a = 40 \<and> T b = 25 \<and> T c = 10" for a b c
  proof -
    from h have Sabc: "S = {a, b, c}" and Ta: "T a = 40" and Tb: "T b = 25" and Tc: "T c = 10"
      by simp_all
    have ne: "a \<noteq> b" "a \<noteq> c" "b \<noteq> c" using Ta Tb Tc by auto
    then have "card S = 3" unfolding Sabc by simp
    then have "2 \<le> card S" by simp
    with rk(3) obtain p q where pq: "p \<in> S" "q \<in> S" "p \<noteq> q"
      and top: "\<forall>k\<in>S. T k \<le> T p"
      and second: "\<forall>k\<in>S. k \<noteq> p \<longrightarrow> T k \<le> T q"
      and r: "\<forall>t\<in>set turns. t_speaker t
                = (if t_speaker_raw t = p then ''CUSTOMER''
                   else if t_speaker_raw t = q then ''AGENT'' else t_speaker_raw t)"
      by blast
    have "T a \<le> T p" using top Sabc by simp
    then have p: "p = a" using pq(1) Sabc Ta Tb Tc by auto
    have "T b \<le> T q" using second Sabc ne p by simp
    then have q: "q = b" using pq(2,3) p Sabc Ta Tb Tc by auto
    show ?thesis using r unfolding p q .
  qed
  show ?thesis
  proof (intro exI[of _ turns] conjI allI impI)
    show "build_conversation asr_res diar = Inr turns" by (rule bc)
    show "t_speaker_raw ` set turns = S" by (rule rk(1))
    show "\<forall>t\<in>set turns. t_speaker t = ''CUSTOMER''" if "card S = 1"
      using rk(2) that by blast
    show "\<exists>p q. p \<in> S \<and> q \<in> S \<and> p \<noteq> q
             \<and> (\<forall>k\<in>S. T k \<le> T p)
             \<and> (\<forall>k\<in>S. k \<noteq> p \<longrightarrow> T k \<le> T q)
             \<and> (\<forall>t\<in>set turns. t_speaker t
                    = (if t_speaker_raw t = p then ''CUSTOMER''
                       else if t_speaker_raw t = q then ''AGENT'' else t_speaker_raw t))"
      if "2 \<le> card S" using rk(3) that by (rule mp)
    show "\<forall>t\<in>set turns. t_speaker t
              = (if t_speaker_raw t = a then ''CUSTOMER''
                 else if t_speaker_raw t = b then ''AGENT'' else t_speaker_raw t)"
      if "S = {a, b, c} \<and> T a = 40 \<and> T b = 25 \<and> T c = 10" for a b c
      by (rule scen[OF that])
  qed
qed

text \<open>One recognition segment "x y z" on \<open>[0, 75]\<close> and the diarization \<open>[0, 25]\<close> of B,
  \<open>[25, 65]\<close> of A, \<open>[65, 75]\<close> of C: the speaking times are 40 for A, 25 for B and 10 for
  C.\<close>

theorem conversation_roles_by_speaking_time_witness:
  "align
     (AsrList [ItemDict \<lparr>ws_start = Some (Number 0), ws_end = Some (Number 75),
                ws_text = Some (Str ''x y z''),
                ws_avg_logprob = Some 0, ws_no_speech_prob = Some 0\<rparr>])
     [\<lparr>d_start = 0, d_end = 25, d_speaker = ''B''\<rparr>,
      \<lparr>d_start = 25, d_end = 65, d_speaker = ''A''\<rparr>,
      \<lparr>d_start = 65, d_end = 75, d_speaker = ''C''\<rparr>]
   = Inr [\<lparr>a_start = 0, a_end = 25, a_speaker = ''B'', a_text = ''x'',
           confidence = 1 / 2, gender = None, gender_confidence = None\<rparr>,
          \<lparr>a_start = 25, a_end = 65, a_speaker = ''A'', a_text = ''y z'',
           confidence = 1 / 2, gender = None, gender_confidence = None\<rparr>,
          \<lparr>a_start = 65, a_end = 75, a_speaker = ''C'', a_text = ''z'',
           confidence = 1 / 2, gender = None, gender_confidence = None\<rparr>]
   \<and> (\<exists>turns.
        build_conversation
          (AsrList [ItemDict \<lparr>ws_start = Some (Number 0), ws_end = Some (Number 75),
                ws_text = Some (Str ''x y z''),
                     ws_avg_logprob = Some 0, ws_no_speech_prob = Some 0\<rparr>])
          [\<lparr>d_start = 0, d_end = 25, d_speaker = ''B''\<rparr>,
           \<lparr>d_start = 25, d_end = 65, d_speaker = ''A''\<rparr>,
           \<lparr>d_start = 65, d_end = 75, d_speaker = ''C''\<rparr>] = Inr turns
        \<and> t_speaker_raw ` set turns = {''A'', ''B'', ''C''}
        \<and> (\<forall>t\<in>set turns. t_speaker t
              = (if t_speaker_raw t = ''A'' then ''CUSTOMER''
                 else if t_speaker_raw t = ''B'' then ''AGENT'' else t_speaker_raw t)))"
proof -
  let ?res = "AsrList [ItemDict \<lparr>ws_start = Some (Number 0), ws_end = Some (Number 75),
                ws_text = Some (Str ''x y z''),
                ws_avg_logprob = Some 0, ws_no_speech_prob = Some 0\<rparr>]"
  let ?diar = "[\<lparr>d_start = 0, d_end = 25, d_speaker = ''B''\<rparr>,
      \<lparr>d_start = 25, d_end = 65, d_speaker = ''A''\<rparr>,
      \<lparr>d_start = 65, d_end = 75, d_speaker = ''C''\<rparr>]"
  let ?s = "\<lparr>seg_start = 0, seg_end = 75, seg_text = ''x y z'', avg_logprob = 0,
             no_speech_prob = 0\<rparr>"
  let ?rb = "\<lparr>a_start = 0, a_end = 25, a_speaker = ''B'', a_text = ''x''\<rparr>"
  let ?ra = "\<lparr>a_start = 25, a_end = 65, a_speaker = ''A'', a_text = ''y z''\<rparr>"
  let ?rc = "\<lparr>a_start = 65, a_end = 75, a_speaker = ''C'', a_text = ''z''\<rparr>"
  let ?segs = "[\<lparr>a_start = 0, a_end = 25, a_speaker = ''B'', a_text = ''x'',
           confidence = 1 / 2, gender = None, gender_confidence = None\<rparr>,
          \<lparr>a_start = 25, a_end = 65, a_speaker = ''A'', a_text = ''y z'',
           confidence = 1 / 2, gender = None, gender_confidence = None\<rparr>,
          \<lparr>a_start = 65, a_end = 75, a_speaker = ''C'', a_text = ''z'',
           confidence = 1 / 2, gender = None, gender_confidence = None\<rparr>]"
  have ex: "extract_asr_segments ?res = Inr [?s]"
    by (simp add: extract_asr_segments_def select_segments_def py_float_def norm_text_def
        py_strip_def py_isspace_def)
  have ws: "to_word_segments [?s] =
      [\<lparr>w_start = 0, w_end = 25, word = ''x''\<rparr>,
       \<lparr>w_start = 25, w_end = 50, word = ''y''\<rparr>,
       \<lparr>w_start = 50, w_end = 75, word = ''z''\<rparr>]"
    by (simp add: py_isspace_def word_slices_def Let_def enumerate_eq_zip)
  have r: "round3 0 = 0" "round3 25 = 25" "round3 65 = 65" "round3 75 = 75"
    by (simp_all add: round3_def Let_def)
  have raw: "align_words_to_diarization (to_word_segments [?s]) ?diar = [?rb, ?ra, ?rc]"
    unfolding ws
    by (simp add: align_words_to_diarization_def word_in_def r py_strip_def py_isspace_def)
  have mg: "merge_blocks [?rb, ?ra, ?rc] = [?rb, ?ra, ?rc]"
    by (simp add: merge_blocks_def merge_blocks_gap_def Let_def)
  have best: "best_diar_for_asr 0 25 [?s] = Some ?s" "best_diar_for_asr 25 65 [?s] = Some ?s"
    "best_diar_for_asr 65 75 [?s] = Some ?s"
    by (simp_all add: best_diar_for_asr_def overlap_def Let_def)
  have conf: "confidence_from_whisper ?s = Inr (1 / 2)"
    by (simp add: confidence_from_whisper_def math_exp_def exp_max_arg_def Let_def)
  have ev: "align ?res ?diar = Inr ?segs"
    unfolding align_def Let_def ex sum.case raw mg by (simp add: best conf)
  have S: "{''A'', ''B'', ''C''} = a_speaker ` set ?segs" by auto
  have T: "spec_speaking_time ?segs ''A'' = 40" "spec_speaking_time ?segs ''B'' = 25"
    "spec_speaking_time ?segs ''C'' = 10"
    by (simp_all add: spec_speaking_time_def)
  from conversation_roles_by_speaking_time [OF ev S refl] show ?thesis
  proof (elim exE conjE)
    fix turns
    assume bc: "build_conversation ?res ?diar = Inr turns"
      and raws: "t_speaker_raw ` set turns = {''A'', ''B'', ''C''}"
      and scen: "\<forall>a b c. {''A'', ''B'', ''C''} = {a, b, c} \<and> spec_speaking_time ?segs a = 40
        \<and> spec_speaking_time ?segs b = 25 \<and> spec_speaking_time ?segs c = 10 \<longrightarrow>
          (\<forall>t\<in>set turns. t_speaker t
              = (if t_speaker_raw t = a then ''CUSTOMER''
                 else if t_speaker_raw t = b then ''AGENT'' else t_speaker_raw t))"
    have h: "{''A'', ''B'', ''C''} = {''A'', ''B'', ''C''} \<and> spec_speaking_time ?segs ''A'' = 40
        \<and> spec_speaking_time ?segs ''B'' = 25 \<and> spec_speaking_time ?segs ''C'' = 10"
      using T by (intro conjI refl)
    have roles: "\<forall>t\<in>set turns. t_speaker t
              = (if t_speaker_raw t = ''A'' then ''CUSTOMER''
                 else if t_speaker_raw t = ''B'' then ''AGENT'' else t_speaker_raw t)"
      by (intro ballI) (rule scen[rule_format, of "''A''" "''B''" "''C''", OF h])
    show ?thesis
    proof (intro conjI exI[of _ turns])
      show "align ?res ?diar = Inr ?segs" by (rule ev)
      show "build_conversation ?res ?diar = Inr turns" by (rule bc)
      show "t_speaker_raw ` set turns = {''A'', ''B'', ''C''}" by (rule raws)
      show "\<forall>t\<in>set turns. t_speaker t
              = (if t_speaker_raw t = ''A'' then ''CUSTOMER''
                 else if t_speaker_raw t = ''B'' then ''AGENT'' else t_speaker_raw t)"
        by (rule roles)
    qed
  qed
qed

subsection \<open>Empty inputs\<close>









subsection \<open>Conversation bounds\<close>

text \<open>
  Claim C10. For every non-empty speaker-segment list and non-empty diarization list,
  \<open>compute_conversation_stats\<close> returns statistics whose \<open>conversation_start\<close> is the start
  of the positionally first diarization entry and whose \<open>conversation_end\<close> is the end of
  the positionally last entry, with no sorting and no minimum or maximum, and
  \<open>total_duration\<close> is their difference; hence there is an unsorted diarization input for
  which \<open>total_duration\<close> is negative.
\<close>

theorem conversation_bounds_positional:
  "(speaker_segments \<noteq> [] \<and> diarization_segments \<noteq> [] \<longrightarrow>
      (\<exists>st. compute_conversation_stats speaker_segments diarization_segments = Some st
         \<and> conversation_start st = d_start (hd diarization_segments)
         \<and> conversation_end st = d_end (last diarization_segments)
         \<and> total_duration st = conversation_end st - conversation_start st))
   \<and> (\<exists>segs diar st. segs \<noteq> [] \<and> \<not> sorted (map d_start diar)
         \<and> compute_conversation_stats segs diar = Some st \<and> total_duration st < 0)"
proof (intro conjI impI)
  assume "speaker_segments \<noteq> [] \<and> diarization_segments \<noteq> []"
  then show "\<exists>st. compute_conversation_stats speaker_segments diarization_segments = Some st
         \<and> conversation_start st = d_start (hd diarization_segments)
         \<and> conversation_end st = d_end (last diarization_segments)
         \<and> total_duration st = conversation_end st - conversation_start st"
    by (simp add: compute_conversation_stats_def Let_def)
next
  let ?seg = "\<lparr>a_start = 0, a_end = 1, a_speaker = ''S0'', a_text = ''hi'',
                confidence = 1 / 2, gender = None, gender_confidence = None\<rparr>"
  let ?diar = "[\<lparr>d_start = 5, d_end = 6, d_speaker = ''S0''\<rparr>,
                \<lparr>d_start = 0, d_end = 1, d_speaker = ''S1''\<rparr>]"
  have "[?seg] \<noteq> [] \<and> \<not> sorted (map d_start ?diar)
         \<and> (\<exists>st. compute_conversation_stats [?seg] ?diar = Some st \<and> total_duration st < 0)"
    by (simp add: compute_conversation_stats_def Let_def)
  then show "\<exists>segs diar st. segs \<noteq> [] \<and> \<not> sorted (map d_start diar)
         \<and> compute_conversation_stats segs diar = Some st \<and> total_duration st < 0"
    by blast
qed

text \<open>The statistics of one speaker segment over the diarization \<open>[5, 6], [0, 1]\<close>: the
  bounds are 5 and 1, the duration is \<open>- 4\<close>.\<close>

theorem conversation_bounds_positional_witness:
  "\<exists>st. compute_conversation_stats
           [\<lparr>a_start = 0, a_end = 1, a_speaker = ''S0'', a_text = ''hi'',
             confidence = 1 / 2, gender = None, gender_confidence = None\<rparr>]
           [\<lparr>d_start = 5, d_end = 6, d_speaker = ''S0''\<rparr>,
            \<lparr>d_start = 0, d_end = 1, d_speaker = ''S1''\<rparr>] = Some st
        \<and> conversation_start st = 5 \<and> conversation_end st = 1 \<and> total_duration st = - 4"
proof -
  let ?segs = "[\<lparr>a_start = 0, a_end = 1, a_speaker = ''S0'', a_text = ''hi'',
             confidence = 1 / 2, gender = None, gender_confidence = None\<rparr>]"
  let ?diar = "[\<lparr>d_start = 5, d_end = 6, d_speaker = ''S0''\<rparr>,
            \<lparr>d_start = 0, d_end = 1, d_speaker = ''S1''\<rparr>]"
  have ne: "?segs \<noteq> [] \<and> ?diar \<noteq> []" by simp
  from conversation_bounds_positional [of ?segs ?diar] ne
  obtain st where "compute_conversation_stats ?segs ?diar = Some st"
    and "conversation_start st = d_start (hd ?diar)"
    and "conversation_end st = d_end (last ?diar)"
    and "total_duration st = conversation_end st - conversation_start st"
    by blast
  then show ?thesis by simp
qed

end
